theory Spec2Isabelle
  imports Complex_Main
begin


section \<open>Errors and loops\<close>

text \<open>
  The JavaScript sources throw in two ways that matter here: reading a property of
  \<open>undefined\<close> (a \<open>TypeError\<close>, for instance \<open>mask[0].length\<close> on an empty mask) and
  exhausting the call stack by unbounded recursion (a \<open>RangeError\<close>).
\<close>

datatype error = TypeError | RangeError

text \<open>
  A \<open>for\<close> loop over the values \<open>xs\<close> whose body updates the state \<open>s\<close> and may throw;
  the first throw leaves the loop.
\<close>

fun forEach :: "'a list \<Rightarrow> ('a \<Rightarrow> 's \<Rightarrow> error + 's) \<Rightarrow> 's \<Rightarrow> error + 's" where
  "forEach [] body s = Inr s"
| "forEach (a # as) body s =
     (case body a s of Inl e \<Rightarrow> Inl e | Inr s' \<Rightarrow> forEach as body s')"

section \<open>Step 2b: hybrid dilation (step2b\_dilate.js)\<close>

type_synonym mask = "nat list list"

text \<open>
  A parameter that the source calls \<open>mask\<close> is written \<open>msk\<close>: \<open>mask\<close> is a constant of HOL.
\<close>

text \<open>\<open>Array(height).fill(null).map(() => Array(width).fill(v))\<close>\<close>

definition newGrid :: "nat \<Rightarrow> nat \<Rightarrow> 'a \<Rightarrow> 'a list list" where
  "newGrid height width v = replicate height (replicate width v)"

text \<open>
  \<open>g[y][x] = v\<close>. Every caller has checked \<open>y\<close> and \<open>x\<close> against the dimensions of \<open>g\<close>
  before the write, so the JavaScript behaviour of extending an array is never reached.
\<close>

definition setCell :: "'a list list \<Rightarrow> nat \<Rightarrow> nat \<Rightarrow> 'a \<Rightarrow> 'a list list" where
  "setCell g y x v = g[y := (g ! y)[x := v]]"

text \<open>
  \<open>m[y][x] === 1\<close> for a row \<open>y\<close> that exists. Reading past the end of the row gives
  \<open>undefined\<close>, which is not \<open>1\<close>.
\<close>

definition isOne :: "mask \<Rightarrow> nat \<Rightarrow> nat \<Rightarrow> bool" where
  "isOne m y x = (x < length (m ! y) \<and> m ! y ! x = 1)"

text \<open>
  The body of the two innermost loops of \<open>dilateOnce\<close>: the bounds check and the
  coverage check around \<open>output[ny][nx] = 1\<close>. A coverage mask of \<open>null\<close> is \<open>None\<close>.
  \<open>coverageMask[ny][nx]\<close> throws when the coverage mask has no row \<open>ny\<close>.
\<close>

definition dilateWrite ::
  "mask option \<Rightarrow> nat \<Rightarrow> nat \<Rightarrow> int \<Rightarrow> int \<Rightarrow> mask \<Rightarrow> error + mask" where
  "dilateWrite coverageMask height width ny nx output =
     (if ny \<ge> 0 \<and> ny < int height \<and> nx \<ge> 0 \<and> nx < int width then
        (case coverageMask of
           None \<Rightarrow> Inr (setCell output (nat ny) (nat nx) 1)
         | Some c \<Rightarrow>
             if nat ny < length c then
               (if isOne c (nat ny) (nat nx)
                then Inr (setCell output (nat ny) (nat nx) 1)
                else Inr output)
             else Inl TypeError)
      else Inr output)"

text \<open>The body of the \<open>x\<close> loop: a foreground pixel sets itself and its 8 neighbours.\<close>

definition dilatePixel ::
  "mask \<Rightarrow> mask option \<Rightarrow> nat \<Rightarrow> nat \<Rightarrow> nat \<Rightarrow> nat \<Rightarrow> mask \<Rightarrow> error + mask" where
  "dilatePixel msk coverageMask height width y x output =
     (if isOne msk y x then
        forEach [-1, 0, 1] (\<lambda>dy.
          forEach [-1, 0, 1] (\<lambda>dx.
            dilateWrite coverageMask height width (int y + dy) (int x + dx))) output
      else Inr output)"

definition dilateOnce :: "mask \<Rightarrow> mask option \<Rightarrow> error + mask" where
  "dilateOnce msk coverageMask =
     (case msk of
        [] \<Rightarrow> Inl TypeError
      | row0 # _ \<Rightarrow>
          let height = length msk;
              width = length row0;
              output = newGrid height width 0
          in forEach [0..<height] (\<lambda>y.
               forEach [0..<width] (\<lambda>x.
                 dilatePixel msk coverageMask height width y x)) output)"

text \<open>
  The options object of \<open>dilateHybrid\<close>; a field left out (\<open>None\<close>) takes its default
  of one pass.
\<close>

record options =
  unconditionalPasses :: "nat option"
  smartPasses :: "nat option"

definition passCount :: "nat option \<Rightarrow> nat" where
  "passCount field = (case field of None \<Rightarrow> 1 | Some n \<Rightarrow> n)"

definition dilateHybrid :: "mask \<Rightarrow> mask option \<Rightarrow> options \<Rightarrow> error + mask" where
  "dilateHybrid msk coverageMask opts =
     (case forEach [0..<passCount (unconditionalPasses opts)]
             (\<lambda>i result. dilateOnce result None) msk of
        Inl e \<Rightarrow> Inl e
      | Inr result \<Rightarrow>
          forEach [0..<passCount (smartPasses opts)]
            (\<lambda>i result. dilateOnce result coverageMask) result)"

subsection \<open>Grids and the invariant of a dilation pass\<close>

text \<open>
  A grid of \<open>h\<close> rows of \<open>w\<close> cells each. \<open>allowed\<close> is the coverage test of a pass,
  \<open>covRows\<close> says that the coverage mask has a row for every row of the mask, and
  \<open>dilInv\<close> is what every write of a pass keeps: the output stays a grid, the cells of
  \<open>S\<close> are set, and every cell is 0 or is a set cell that the coverage test allows.
\<close>

definition rect :: "nat \<Rightarrow> nat \<Rightarrow> 'a list list \<Rightarrow> bool" where
  "rect h w g = (length g = h \<and> (\<forall>r\<in>set g. length r = w))"

definition allowed :: "mask option \<Rightarrow> nat \<Rightarrow> nat \<Rightarrow> bool" where
  "allowed cov y x = (case cov of None \<Rightarrow> True | Some c \<Rightarrow> isOne c y x)"

definition covRows :: "mask option \<Rightarrow> nat \<Rightarrow> bool" where
  "covRows cov h = (case cov of None \<Rightarrow> True | Some c \<Rightarrow> h \<le> length c)"

definition dilInv :: "mask option \<Rightarrow> nat \<Rightarrow> nat \<Rightarrow> (nat \<times> nat) set \<Rightarrow> mask \<Rightarrow> bool" where
  "dilInv cov h w S out =
     (rect h w out \<and> (\<forall>(y, x)\<in>S. out ! y ! x = 1) \<and>
      (\<forall>y<h. \<forall>x<w. out ! y ! x = 0 \<or> (out ! y ! x = 1 \<and> allowed cov y x)))"

text \<open>The options object \<open>{}\<close>: both pass counts take their defaults.\<close>

definition defaults :: options where
  "defaults = \<lparr>unconditionalPasses = None, smartPasses = None\<rparr>"

section \<open>Step 3: contour tracing (the tracer, stored in step4\_simplification.js)\<close>

text \<open>
  A pixel is the pair \<open>(x, y)\<close> of the object \<open>{x, y}\<close>. The entries of \<open>DIRECTIONS\<close>
  are the pairs \<open>(dx, dy)\<close>, clockwise from north.
\<close>

type_synonym pixel = "int \<times> int"

definition DIRECTIONS :: "(int \<times> int) list" where
  "DIRECTIONS = [(0, -1), (1, -1), (1, 0), (1, 1), (0, 1), (-1, 1), (-1, 0), (-1, -1)]"

definition MAX_LOOP :: nat where
  "MAX_LOOP = 10000"

text \<open>
  The \<open>visited\<close> array of \<open>traceContours\<close>, read as \<open>visited y x\<close>. It is created with
  the dimensions of the mask and every read and write of it in the source is behind a
  bounds check against those dimensions, so the array is modelled by its contents.
\<close>

type_synonym visited = "nat \<Rightarrow> nat \<Rightarrow> bool"

text \<open>
  The inner \<open>for\<close> loop of \<open>mooreNeighborTrace\<close> over \<open>i = 0, ..., 7\<close>: the first
  neighbour, clockwise from \<open>backtrackDir\<close>, that lies in the mask and is 1, with the new
  backtrack direction; \<open>None\<close> when the loop ends with \<open>foundNext\<close> still false. The
  bounds check reads \<open>mask[0].length\<close> once \<open>nx >= 0 && ny >= 0\<close> holds, which throws
  on a mask with no rows.
\<close>

fun scanNeighbours ::
  "mask \<Rightarrow> int \<Rightarrow> int \<Rightarrow> nat \<Rightarrow> nat list \<Rightarrow> error + (int \<times> int \<times> nat) option" where
  "scanNeighbours msk cx cy backtrackDir [] = Inr None"
| "scanNeighbours msk cx cy backtrackDir (i # rest) =
     (let checkDir = (backtrackDir + i) mod 8;
          offset = DIRECTIONS ! checkDir;
          nx = cx + fst offset;
          ny = cy + snd offset
      in if nx \<ge> 0 \<and> ny \<ge> 0 then
           (case msk of
              [] \<Rightarrow> Inl TypeError
            | row0 # _ \<Rightarrow>
                if nx < int (length row0) \<and> ny < int (length msk)
                   \<and> isOne msk (nat ny) (nat nx)
                then Inr (Some (nx, ny, (checkDir + 7) mod 8))
                else scanNeighbours msk cx cy backtrackDir rest)
         else scanNeighbours msk cx cy backtrackDir rest)"

text \<open>
  The \<open>while (true)\<close> loop of \<open>mooreNeighborTrace\<close>, with the way it was left: the walk
  came back to the start pixel, no neighbour was found, or \<open>loopCount\<close> passed
  \<open>MAX_LOOP\<close>. \<open>loopCount\<close> is the count before the increment at the head of the body.
\<close>

datatype exit = Closed | Isolated | CapExceeded

function traceLoop ::
  "mask \<Rightarrow> int \<Rightarrow> int \<Rightarrow> int \<Rightarrow> int \<Rightarrow> nat \<Rightarrow> nat \<Rightarrow> pixel list
     \<Rightarrow> error + (exit \<times> pixel list)" where
  "traceLoop msk startX startY cx cy backtrackDir loopCount contour =
     (if loopCount + 1 > MAX_LOOP then Inr (CapExceeded, contour)
      else
        (case scanNeighbours msk cx cy backtrackDir [0..<8] of
           Inl e \<Rightarrow> Inl e
         | Inr None \<Rightarrow> Inr (Isolated, contour)
         | Inr (Some (nx, ny, bd)) \<Rightarrow>
             if nx = startX \<and> ny = startY then Inr (Closed, contour)
             else traceLoop msk startX startY nx ny bd (loopCount + 1)
                    (contour @ [(nx, ny)])))"
  by pat_completeness auto
termination
  by (relation "measure (\<lambda>(msk, startX, startY, cx, cy, backtrackDir, loopCount, contour).
        MAX_LOOP - loopCount)") auto

declare traceLoop.simps [simp del]

text \<open>
  \<open>mooreNeighborTrace\<close> returns the contour of the walk; \<open>traceWalk\<close> also tells how the
  loop was left. The source does not read its \<open>visited\<close> parameter.
\<close>

definition traceWalk ::
  "mask \<Rightarrow> int \<Rightarrow> int \<Rightarrow> nat \<Rightarrow> error + (exit \<times> pixel list)" where
  "traceWalk msk startX startY initialBacktrackDir =
     traceLoop msk startX startY startX startY initialBacktrackDir 0 [(startX, startY)]"

definition mooreNeighborTrace ::
  "mask \<Rightarrow> int \<Rightarrow> int \<Rightarrow> visited \<Rightarrow> nat \<Rightarrow> error + pixel list" where
  "mooreNeighborTrace msk startX startY visited initialBacktrackDir =
     (case traceWalk msk startX startY initialBacktrackDir of
        Inl e \<Rightarrow> Inl e
      | Inr (reason, contour) \<Rightarrow> Inr contour)"

text \<open>\<open>visited[y][x] = true\<close>\<close>

definition markVisited :: "visited \<Rightarrow> nat \<Rightarrow> nat \<Rightarrow> visited" where
  "markVisited visited y x = visited(y := (visited y)(x := True))"

text \<open>
  The body of the \<open>for (const n of neighbors)\<close> loop of \<open>floodFillVisited\<close>, on the
  queue and the visited array.
\<close>

definition floodVisit ::
  "mask \<Rightarrow> nat \<Rightarrow> nat \<Rightarrow> pixel \<Rightarrow> pixel list \<times> visited \<Rightarrow> pixel list \<times> visited" where
  "floodVisit msk width height n qv =
     (case n of (nx, ny) \<Rightarrow>
      case qv of (queue, visited) \<Rightarrow>
        if nx \<ge> 0 \<and> nx < int width \<and> ny \<ge> 0 \<and> ny < int height then
          (if isOne msk (nat ny) (nat nx) \<and> \<not> visited (nat ny) (nat nx)
           then (queue @ [n], markVisited visited (nat ny) (nat nx))
           else qv)
        else qv)"

text \<open>
  The foreground pixels not yet visited: the \<open>while\<close> loop of \<open>floodFillVisited\<close>
  terminates because every push removes one of them.
\<close>

definition unvisited :: "mask \<Rightarrow> nat \<Rightarrow> nat \<Rightarrow> visited \<Rightarrow> (nat \<times> nat) set" where
  "unvisited msk width height visited =
     {(y, x). y < height \<and> x < width \<and> isOne msk y x \<and> \<not> visited y x}"

function floodLoop :: "mask \<Rightarrow> nat \<Rightarrow> nat \<Rightarrow> pixel list \<Rightarrow> visited \<Rightarrow> visited" where
  "floodLoop msk width height queue visited =
     (case queue of
        [] \<Rightarrow> visited
      | (x, y) # rest \<Rightarrow>
          (case fold (floodVisit msk width height)
                  [(x + 1, y), (x - 1, y), (x, y + 1), (x, y - 1)] (rest, visited) of
             (queue', visited') \<Rightarrow> floodLoop msk width height queue' visited'))"
  by pat_completeness auto
termination
proof (relation "measure (\<lambda>(msk, width, height, queue, visited).
        2 * card (unvisited msk width height visited) + length queue)", simp)
  fix msk :: mask and width height :: nat and queue rest :: "pixel list" and visited visited' :: visited
    and p :: pixel and x y :: int and queue' :: "pixel list"
  assume q: "queue = p # rest" and p: "(x, y) = p"
    and r: "(queue', visited') = fold (floodVisit msk width height)
                  [(x + 1, y), (x - 1, y), (x, y + 1), (x, y - 1)] (rest, visited)"
  let ?m = "\<lambda>qv. 2 * card (unvisited msk width height (snd qv)) + length (fst qv)"
  have fin: "finite (unvisited msk width height v)" for v
    by (rule finite_subset[of _ "{..<height} \<times> {..<width}"]) (auto simp: unvisited_def)
  have step: "?m (floodVisit msk width height n qv) \<le> ?m qv" for n qv
  proof (cases "floodVisit msk width height n qv = qv")
    case True
    then show ?thesis by simp
  next
    case False
    obtain nx ny q v where n: "n = (nx, ny)" and qv: "qv = (q, v)"
      by (cases n, cases qv) auto
    from False have c: "nx \<ge> 0" "nx < int width" "ny \<ge> 0" "ny < int height"
      "isOne msk (nat ny) (nat nx)" "\<not> v (nat ny) (nat nx)"
      and res: "floodVisit msk width height n (q, v) = (q @ [n], markVisited v (nat ny) (nat nx))"
      by (auto simp: floodVisit_def n qv split: if_splits)
    have mem: "(nat ny, nat nx) \<in> unvisited msk width height v"
      using c by (auto simp: unvisited_def)
    have "unvisited msk width height (markVisited v (nat ny) (nat nx))
          = unvisited msk width height v - {(nat ny, nat nx)}"
      by (auto simp: unvisited_def markVisited_def split: if_splits)
    then have "card (unvisited msk width height (markVisited v (nat ny) (nat nx)))
          = card (unvisited msk width height v) - 1"
      using mem fin by simp
    moreover have "card (unvisited msk width height v) \<ge> 1"
      using mem fin[of v] by (metis One_nat_def Suc_leI card_gt_0_iff empty_iff)
    ultimately show ?thesis by (simp add: res qv)
  qed
  have steps: "?m (fold (floodVisit msk width height) ns qv) \<le> ?m qv" for ns qv
  proof (induction ns arbitrary: qv)
    case Nil
    then show ?case by simp
  next
    case (Cons n ns)
    have "?m (fold (floodVisit msk width height) ns (floodVisit msk width height n qv))
          \<le> ?m (floodVisit msk width height n qv)" by (rule Cons.IH)
    also have "\<dots> \<le> ?m qv" by (rule step)
    finally show ?case by simp
  qed
  have "?m (queue', visited') \<le> ?m (rest, visited)" unfolding r by (rule steps)
  with q show "((msk, width, height, queue', visited'), msk, width, height, queue, visited)
        \<in> measure (\<lambda>(msk, width, height, queue, visited).
              2 * card (unvisited msk width height visited) + length queue)"
    by auto
qed

declare floodLoop.simps [simp del]

text \<open>
  \<open>floodFillVisited\<close> is called with a start pixel inside the mask. It reads
  \<open>mask[0].length\<close>, which throws on a mask with no rows.
\<close>

definition floodFillVisited :: "mask \<Rightarrow> nat \<Rightarrow> nat \<Rightarrow> visited \<Rightarrow> error + visited" where
  "floodFillVisited msk startX startY visited =
     (case msk of
        [] \<Rightarrow> Inl TypeError
      | row0 # _ \<Rightarrow>
          Inr (floodLoop msk (length row0) (length msk) [(int startX, int startY)]
                 (markVisited visited startY startX)))"

text \<open>
  The objects \<open>{points, isHole}\<close> that \<open>traceContours\<close> returns. The fields carry the
  name of the record, since \<open>points\<close> is also the name of a parameter in the source.
\<close>

record contour =
  contour_points :: "pixel list"
  contour_isHole :: bool

text \<open>The body of the scan of \<open>traceContours\<close> at the pixel \<open>(x, y)\<close>.\<close>

definition traceCell ::
  "mask \<Rightarrow> nat \<Rightarrow> nat \<Rightarrow> visited \<times> contour list \<Rightarrow> error + visited \<times> contour list" where
  "traceCell msk y x state =
     (case state of (visited, contours) \<Rightarrow>
        if isOne msk y x \<and> \<not> visited y x then
          (case mooreNeighborTrace msk (int x) (int y) visited 6 of
             Inl e \<Rightarrow> Inl e
           | Inr contourPoints \<Rightarrow>
               let contours' =
                     (if length contourPoints > 0
                      then contours @ [\<lparr>contour_points = contourPoints, contour_isHole = False\<rparr>]
                      else contours)
               in (case floodFillVisited msk x y visited of
                     Inl e \<Rightarrow> Inl e
                   | Inr visited' \<Rightarrow> Inr (visited', contours')))
        else Inr state)"

definition traceContours :: "mask \<Rightarrow> error + contour list" where
  "traceContours msk =
     (case msk of
        [] \<Rightarrow> Inl TypeError
      | row0 # _ \<Rightarrow>
          let height = length msk;
              width = length row0;
              visited = (\<lambda>y x. False)
          in (case forEach [0..<height] (\<lambda>y.
                     forEach [0..<width] (\<lambda>x. traceCell msk y x)) (visited, []) of
                Inl e \<Rightarrow> Inl e
              | Inr (visited', contours) \<Rightarrow> Inr contours))"

text \<open>
  Two different pixels that touch at a side or a corner, and the test that \<open>(x, y)\<close> is a
  pixel of the mask with value 1.
\<close>

definition adjacent8 :: "pixel \<Rightarrow> pixel \<Rightarrow> bool" where
  "adjacent8 p q = (p \<noteq> q \<and> \<bar>fst p - fst q\<bar> \<le> 1 \<and> \<bar>snd p - snd q\<bar> \<le> 1)"

definition foreground :: "mask \<Rightarrow> int \<Rightarrow> int \<Rightarrow> bool" where
  "foreground msk x y =
     (case msk of
        [] \<Rightarrow> False
      | row0 # _ \<Rightarrow>
          0 \<le> x \<and> 0 \<le> y \<and> x < int (length row0) \<and> y < int (length msk)
          \<and> isOne msk (nat y) (nat x))"

section \<open>Step 4: path simplification (step4\_simplification.js)\<close>

text \<open>
  A point is the pair \<open>(x, y)\<close> of the object \<open>{x, y}\<close>. JavaScript numbers are modelled
  by the real numbers: rounding, overflow and \<open>NaN\<close> of IEEE doubles are not modelled.
\<close>

type_synonym point = "real \<times> real"

definition perpendicularDistance :: "point \<Rightarrow> point \<Rightarrow> point \<Rightarrow> real" where
  "perpendicularDistance point lineStart lineEnd =
     (let x = fst point; y = snd point;
          x1 = fst lineStart; y1 = snd lineStart;
          x2 = fst lineEnd; y2 = snd lineEnd;
          numerator = \<bar>(y2 - y1) * x - (x2 - x1) * y + x2 * y1 - y2 * x1\<bar>;
          denominator = sqrt ((y2 - y1)\<^sup>2 + (x2 - x1)\<^sup>2)
      in if denominator = 0 then 0 else numerator / denominator)"

text \<open>
  The \<open>for\<close> loop of \<open>simplifyPath\<close>: the pair \<open>(maxDistance, index)\<close> after the loop
  over \<open>i = 1, ..., points.length - 2\<close>. It is called on at least 3 points.
\<close>

definition farthest :: "point list \<Rightarrow> real \<times> nat" where
  "farthest points =
     (let firstPoint = points ! 0;
          lastPoint = points ! (length points - 1)
      in fold (\<lambda>i (maxDistance, index).
                 let d = perpendicularDistance (points ! i) firstPoint lastPoint
                 in if d > maxDistance then (d, i) else (maxDistance, index))
           [1..<length points - 1] (0, 0))"

text \<open>
  \<open>simplifyPath\<close>, with \<open>slice(0, index + 1)\<close> as \<open>take\<close> and \<open>slice(index)\<close> as \<open>drop\<close>.
  The source does not bound the recursion: a call on \<open>n\<close> points can nest \<open>n - 2\<close> calls
  below itself, and with \<open>index = 0\<close> the right half is the whole input again. The
  JavaScript call stack does bound it: \<open>stackDepth\<close> is the number of nested calls of
  \<open>simplifyPath\<close> that the stack has room for, this call included, and a call with no
  room left throws a \<open>RangeError\<close>. The limit belongs to the engine, not to the source,
  so it is a parameter.
\<close>

function simplifyPath :: "nat \<Rightarrow> point list \<Rightarrow> real \<Rightarrow> error + point list" where
  "simplifyPath stackDepth points tolerance =
     (if stackDepth = 0 then Inl RangeError
      else if length points < 3 then Inr points
      else if fst (farthest points) > tolerance then
        (case simplifyPath (stackDepth - 1) (take (snd (farthest points) + 1) points)
                tolerance of
           Inl e \<Rightarrow> Inl e
         | Inr leftPath \<Rightarrow>
             (case simplifyPath (stackDepth - 1) (drop (snd (farthest points)) points)
                     tolerance of
                Inl e \<Rightarrow> Inl e
              | Inr rightPath \<Rightarrow> Inr (take (length leftPath - 1) leftPath @ rightPath)))
      else Inr [points ! 0, points ! (length points - 1)])"
  by pat_completeness auto
termination
  by (relation "measure (\<lambda>(stackDepth, points, tolerance). stackDepth)") auto

declare simplifyPath.simps [simp del]


section \<open>Step 5: curve fitting (step5\_curve\_fitting, an unnamed source file)\<close>

definition distance :: "point \<Rightarrow> point \<Rightarrow> real" where
  "distance p1 p2 = sqrt ((fst p2 - fst p1)\<^sup>2 + (snd p2 - snd p1)\<^sup>2)"

text \<open>\<open>1e-9\<close> is written \<open>1 / 10 ^ 9\<close>.\<close>

definition safeNormalize :: "point \<Rightarrow> point" where
  "safeNormalize v =
     (let len = sqrt (fst v * fst v + snd v * snd v)
      in if len < 1 / 10 ^ 9 then (0, 0) else (fst v / len, snd v / len))"

text \<open>
  \<open>isCorner\<close>: a neighbour that is \<open>null\<close> or \<open>undefined\<close> is \<open>None\<close>. The parameter
  \<open>curr\<close> of the source is written \<open>cur\<close>, since \<open>curr\<close> is a constant of HOL.
\<close>

definition isCorner :: "point option \<Rightarrow> point \<Rightarrow> point option \<Rightarrow> bool" where
  "isCorner prev cur next =
     (case prev of
        None \<Rightarrow> True
      | Some pr \<Rightarrow>
          (case next of
             None \<Rightarrow> True
           | Some nx \<Rightarrow>
               if distance pr cur < 0.1 \<or> distance cur nx < 0.1 then False
               else
                 let v1 = safeNormalize (fst cur - fst pr, snd cur - snd pr);
                     v2 = safeNormalize (fst nx - fst cur, snd nx - snd cur);
                     dot = fst v1 * fst v2 + snd v1 * snd v2
                 in dot < 0.2))"

text \<open>
  \<open>filterDuplicates\<close>: the loop pushes onto \<open>result\<close>, and a closed input gets its first
  kept point appended again when the kept end is farther from it than the threshold.
\<close>

definition filterDuplicates :: "point list \<Rightarrow> real \<Rightarrow> point list" where
  "filterDuplicates points threshold =
     (if length points < 2 then points
      else
        let result =
              fold (\<lambda>i result.
                      let lastKept = result ! (length result - 1);
                          cur = points ! i
                      in if distance lastKept cur > threshold then result @ [cur] else result)
                [1..<length points] [points ! 0]
        in if length points > 2 then
             (let firstPoint = points ! 0;
                  lastPoint = points ! (length points - 1)
              in if fst firstPoint = fst lastPoint \<and> snd firstPoint = snd lastPoint then
                   (if distance (result ! 0) (result ! (length result - 1)) > threshold
                    then result @ [result ! 0]
                    else result)
                 else result)
           else result)"

text \<open>
  The objects \<open>{p0, p1, p2, p3}\<close>. The fields carry the name of the record, since
  \<open>p0\<close> and \<open>p3\<close> are also variables of the source.
\<close>

record curve =
  curve_p0 :: point
  curve_p1 :: point
  curve_p2 :: point
  curve_p3 :: point

text \<open>
  The body of the loop of \<open>fitCurves\<close> at index \<open>i\<close>: \<open>None\<close> is the \<open>continue\<close> on a
  segment shorter than 0.1, otherwise the curve that is pushed. All indices are inside
  \<open>cleanPoints\<close>: \<open>i + 2\<close> is read only when \<open>i + 1\<close> is not the last index.
\<close>

definition fitSegment :: "point list \<Rightarrow> bool \<Rightarrow> nat \<Rightarrow> curve option" where
  "fitSegment cleanPoints isClosed i =
     (let p0 = cleanPoints ! i;
          p3 = cleanPoints ! (i + 1)
      in if distance p0 p3 < 0.1 then None
         else
           let prev = (if i = 0
                       then (if isClosed then cleanPoints ! (length cleanPoints - 2) else p0)
                       else cleanPoints ! (i - 1));
               next = (if i + 1 = length cleanPoints - 1
                       then (if isClosed then cleanPoints ! 1 else p3)
                       else cleanPoints ! (i + 2));
               p0IsCorner = isCorner (Some prev) p0 (Some p3);
               p3IsCorner = isCorner (Some p0) p3 (Some next);
               tangent1 = (if p0IsCorner
                           then safeNormalize (fst p3 - fst p0, snd p3 - snd p0)
                           else safeNormalize (fst p3 - fst prev, snd p3 - snd prev));
               tangent2 = (if p3IsCorner
                           then safeNormalize (fst p0 - fst p3, snd p0 - snd p3)
                           else safeNormalize (fst p0 - fst next, snd p0 - snd next));
               dist = distance p0 p3;
               maxLen = dist * 0.4;
               len1 = (if p0IsCorner then min (dist * 0.1) maxLen else min (dist * 0.33) maxLen);
               len2 = (if p3IsCorner then min (dist * 0.1) maxLen else min (dist * 0.33) maxLen);
               p1 = (fst p0 + fst tangent1 * len1, snd p0 + snd tangent1 * len1);
               p2 = (fst p3 + fst tangent2 * len2, snd p3 + snd tangent2 * len2)
           in Some \<lparr>curve_p0 = p0, curve_p1 = p1, curve_p2 = p2, curve_p3 = p3\<rparr>)"

definition fitCurves :: "point list \<Rightarrow> curve list" where
  "fitCurves points =
     (let cleanPoints = filterDuplicates points 1.0
      in if length cleanPoints < 2 then []
         else
           let isClosed =
                 (fst (cleanPoints ! 0) = fst (cleanPoints ! (length cleanPoints - 1)) \<and>
                  snd (cleanPoints ! 0) = snd (cleanPoints ! (length cleanPoints - 1)))
           in fold (\<lambda>i curves.
                      case fitSegment cleanPoints isClosed i of
                        None \<Rightarrow> curves
                      | Some c \<Rightarrow> curves @ [c])
                [0..<length cleanPoints - 1] [])"

text \<open>
  Parts of \<open>fitCurves\<close> by name, to state how it classifies end points: the expressions
  of \<open>prev\<close> and \<open>next\<close> in the loop body (lines 24 to 30 of the source), the test
  \<open>isClosed\<close>, and the handle point \<open>p + t * len\<close> for the unit vector \<open>t\<close> from \<open>a\<close>
  towards \<open>b\<close>. \<open>fitSegment\<close> and \<open>fitCurves\<close> are proved to compute exactly these below.
\<close>

definition segmentPrev :: "point list \<Rightarrow> bool \<Rightarrow> nat \<Rightarrow> point" where
  "segmentPrev cleanPoints isClosed i =
     (if i = 0
      then (if isClosed then cleanPoints ! (length cleanPoints - 2) else cleanPoints ! i)
      else cleanPoints ! (i - 1))"

definition segmentNext :: "point list \<Rightarrow> bool \<Rightarrow> nat \<Rightarrow> point" where
  "segmentNext cleanPoints isClosed i =
     (if i + 1 = length cleanPoints - 1
      then (if isClosed then cleanPoints ! 1 else cleanPoints ! (i + 1))
      else cleanPoints ! (i + 2))"

definition isClosedPath :: "point list \<Rightarrow> bool" where
  "isClosedPath cleanPoints =
     (fst (cleanPoints ! 0) = fst (cleanPoints ! (length cleanPoints - 1)) \<and>
      snd (cleanPoints ! 0) = snd (cleanPoints ! (length cleanPoints - 1)))"

definition along :: "point \<Rightarrow> point \<Rightarrow> point \<Rightarrow> real \<Rightarrow> point" where
  "along p a b len =
     (fst p + fst (safeNormalize (fst b - fst a, snd b - snd a)) * len,
      snd p + snd (safeNormalize (fst b - fst a, snd b - snd a)) * len)"

section \<open>Step 3b: coordinate smoothing (step3b\_smoothing, an unnamed source file)\<close>

text \<open>
  \<open>smoothPoints\<close>: each iteration builds \<open>newPoints\<close> from \<open>currentPoints\<close>, with the
  neighbours taken cyclically; \<open>(i - 1 + len) % len\<close> is written without the negative
  intermediate value.
\<close>

definition smoothPoints :: "point list \<Rightarrow> nat \<Rightarrow> point list" where
  "smoothPoints points iterations =
     (if length points < 3 then points
      else
        fold (\<lambda>iter currentPoints.
                let len = length currentPoints
                in map (\<lambda>i.
                          let prev = currentPoints ! ((i + len - 1) mod len);
                              cur = currentPoints ! i;
                              next = currentPoints ! ((i + 1) mod len)
                          in ((fst prev + (fst cur * 2) + fst next) / 4,
                              (snd prev + (snd cur * 2) + snd next) / 4))
                     [0..<len])
          [0..<iterations] points)"

section \<open>Step 2: colour quantization (step2\_quantize.js)\<close>

text \<open>
  The pixel buffer \<open>{width, height, pixels}\<close>: \<open>pixels\<close> holds the bytes R, G, B, A of the
  pixels in row-major order. A colour is the triple \<open>(r, g, b)\<close>; a layer point is the
  pair \<open>(x, y)\<close>. Record fields carry a prefix, since the source uses the same names for
  variables.
\<close>

record pixelData =
  pd_width :: nat
  pd_height :: nat
  pd_pixels :: "nat list"

type_synonym color = "nat \<times> nat \<times> nat"

record layer =
  layer_color :: color
  layer_points :: "(nat \<times> nat) list"

record cluster =
  cluster_points :: "(nat \<times> nat) list"
  cluster_sumR :: nat
  cluster_sumG :: nat
  cluster_sumB :: nat

text \<open>
  \<open>pixels[i * 4 + 3] > 20\<close>: the alpha byte of pixel \<open>i\<close> is above the threshold. A read
  past the end of the typed array gives \<open>undefined\<close>, and \<open>undefined > 20\<close> is false.
\<close>

definition alphaVisible :: "nat list \<Rightarrow> nat \<Rightarrow> bool" where
  "alphaVisible pixels i = (i * 4 + 3 < length pixels \<and> pixels ! (i * 4 + 3) > 20)"

text \<open>
  \<open>Math.random()\<close> is a parameter: \<open>rnd k\<close> is the value of the \<open>k\<close>-th call, a real
  number in the interval from 0 (included) to 1 (excluded). \<open>pickColor\<close> is the colour of
  the valid pixel that the \<open>k\<close>-th call selects.
\<close>

definition pickColor :: "nat list \<Rightarrow> nat list \<Rightarrow> (nat \<Rightarrow> real) \<Rightarrow> nat \<Rightarrow> color" where
  "pickColor pixels validPixelIndices rnd k =
     (let randIdx = validPixelIndices ! nat \<lfloor>rnd k * real (length validPixelIndices)\<rfloor>
      in (pixels ! (randIdx * 4), pixels ! (randIdx * 4 + 1), pixels ! (randIdx * 4 + 2)))"

text \<open>
  The first \<open>while\<close> loop: up to 1000 attempts to collect \<open>colorCount\<close> distinct colours.
  The set \<open>seenColors\<close> of key strings is the set of the colours themselves. The result is
  the list of centers and the number of calls of \<open>Math.random\<close> so far.
\<close>

function seedDistinct ::
  "nat list \<Rightarrow> nat list \<Rightarrow> (nat \<Rightarrow> real) \<Rightarrow> nat \<Rightarrow> color list \<Rightarrow> color set \<Rightarrow> nat \<Rightarrow> nat
     \<Rightarrow> color list \<times> nat" where
  "seedDistinct pixels validPixelIndices rnd colorCount centers seenColors attempts k =
     (if length centers < colorCount \<and> attempts < 1000 then
        (let c = pickColor pixels validPixelIndices rnd k
         in if c \<notin> seenColors
            then seedDistinct pixels validPixelIndices rnd colorCount
                   (centers @ [c]) (insert c seenColors) (attempts + 1) (k + 1)
            else seedDistinct pixels validPixelIndices rnd colorCount
                   centers seenColors (attempts + 1) (k + 1))
      else (centers, k))"
  by pat_completeness auto
termination
  by (relation "measure (\<lambda>(pixels, validPixelIndices, rnd, colorCount, centers, seenColors,
        attempts, k). 1000 - attempts)") auto

declare seedDistinct.simps [simp del]

text \<open>The second \<open>while\<close> loop: fill up with colours that may repeat.\<close>

function seedFill ::
  "nat list \<Rightarrow> nat list \<Rightarrow> (nat \<Rightarrow> real) \<Rightarrow> nat \<Rightarrow> color list \<Rightarrow> nat \<Rightarrow> color list" where
  "seedFill pixels validPixelIndices rnd colorCount centers k =
     (if length centers < colorCount
      then seedFill pixels validPixelIndices rnd colorCount
             (centers @ [pickColor pixels validPixelIndices rnd k]) (k + 1)
      else centers)"
  by pat_completeness auto
termination
  by (relation "measure (\<lambda>(pixels, validPixelIndices, rnd, colorCount, centers, k).
        colorCount - length centers)") auto

declare seedFill.simps [simp del]

text \<open>
  The loop over the centers for one pixel: the index of the nearest center. \<open>minDist\<close>
  starts as \<open>Infinity\<close>, which is \<open>None\<close>.
\<close>

definition nearestCenter :: "color list \<Rightarrow> nat \<Rightarrow> color \<Rightarrow> nat" where
  "nearestCenter centers colorCount rgb =
     (case rgb of (r, g, b) \<Rightarrow>
        snd (fold (\<lambda>c (minDist, bestCenter).
                     case centers ! c of (cr, cg, cb) \<Rightarrow>
                       let dist = (int r - int cr)\<^sup>2 + (int g - int cg)\<^sup>2 + (int b - int cb)\<^sup>2
                       in if (case minDist of None \<Rightarrow> True | Some m \<Rightarrow> dist < m)
                          then (Some dist, c)
                          else (minDist, bestCenter))
               [0..<colorCount] (None, 0)))"

text \<open>
  The body of the assignment loop for the valid pixel \<open>pIdx\<close>. \<open>clusters[bestCenter]\<close> is
  \<open>undefined\<close> when there is no cluster (a colour count of 0), and reading its \<open>points\<close>
  throws.
\<close>

definition assignPixel ::
  "nat list \<Rightarrow> nat \<Rightarrow> color list \<Rightarrow> nat \<Rightarrow> nat \<Rightarrow> cluster list \<Rightarrow> error + cluster list" where
  "assignPixel pixels width centers colorCount pIdx clusters =
     (let r = pixels ! (pIdx * 4);
          g = pixels ! (pIdx * 4 + 1);
          b = pixels ! (pIdx * 4 + 2);
          bestCenter = nearestCenter centers colorCount (r, g, b)
      in if bestCenter < length clusters then
           (let cl = clusters ! bestCenter
            in Inr (clusters[bestCenter :=
                      \<lparr>cluster_points = cluster_points cl @ [(pIdx mod width, pIdx div width)],
                       cluster_sumR = cluster_sumR cl + r,
                       cluster_sumG = cluster_sumG cl + g,
                       cluster_sumB = cluster_sumB cl + b\<rparr>]))
         else Inl TypeError)"

text \<open>The update of the centers after the assignment: an empty cluster keeps its center.\<close>

definition recalcCenters :: "cluster list \<Rightarrow> nat \<Rightarrow> color list \<Rightarrow> color list" where
  "recalcCenters clusters colorCount centers =
     fold (\<lambda>c centers.
             let cl = clusters ! c;
                 count = length (cluster_points cl)
             in if count > 0
                then centers[c := (cluster_sumR cl div count, cluster_sumG cl div count,
                                   cluster_sumB cl div count)]
                else centers)
       [0..<colorCount] centers"

text \<open>One iteration of the k-means loop, on the centers and the clusters.\<close>

definition kmeansIteration ::
  "nat list \<Rightarrow> nat \<Rightarrow> nat list \<Rightarrow> nat \<Rightarrow> color list \<times> cluster list
     \<Rightarrow> error + color list \<times> cluster list" where
  "kmeansIteration pixels width validPixelIndices colorCount state =
     (case state of (centers, oldClusters) \<Rightarrow>
        (case forEach validPixelIndices (assignPixel pixels width centers colorCount)
                (replicate colorCount
                   \<lparr>cluster_points = [], cluster_sumR = 0, cluster_sumG = 0, cluster_sumB = 0\<rparr>) of
           Inl e \<Rightarrow> Inl e
         | Inr clusters \<Rightarrow> Inr (recalcCenters clusters colorCount centers, clusters)))"

definition quantizeImage :: "(nat \<Rightarrow> real) \<Rightarrow> pixelData \<Rightarrow> nat \<Rightarrow> error + layer list" where
  "quantizeImage rnd pixelData colorCount =
     (let width = pd_width pixelData;
          height = pd_height pixelData;
          pixels = pd_pixels pixelData;
          totalPixels = width * height;
          validPixelIndices = filter (alphaVisible pixels) [0..<totalPixels]
      in if length validPixelIndices = 0 then Inr []
         else
           (case seedDistinct pixels validPixelIndices rnd colorCount [] {} 0 0 of
              (distinctCenters, k) \<Rightarrow>
                let centers = seedFill pixels validPixelIndices rnd colorCount distinctCenters k
                in (case forEach [0..<3]
                           (\<lambda>iter. kmeansIteration pixels width validPixelIndices colorCount)
                           (centers, []) of
                      Inl e \<Rightarrow> Inl e
                    | Inr (centers', clusters) \<Rightarrow>
                        Inr (filter (\<lambda>c. length (layer_points c) > 0)
                               (map (\<lambda>index.
                                       \<lparr>layer_color = centers' ! index,
                                        layer_points = cluster_points (clusters ! index)\<rparr>)
                                  [0..<length clusters])))))"

text \<open>
  \<open>layerToMask\<close>: \<open>mask[p.y][p.x] = 1\<close> throws when the row \<open>p.y\<close> does not exist. A write
  past the end of a row extends the row; the holes it leaves read as \<open>undefined\<close>, which
  every test \<open>=== 1\<close> treats like the 0 written here.
\<close>

definition writeCell :: "nat list \<Rightarrow> nat \<Rightarrow> nat \<Rightarrow> nat list" where
  "writeCell row x v =
     (if x < length row then row[x := v] else row @ replicate (x - length row) 0 @ [v])"

definition layerToMask :: "(nat \<times> nat) list \<Rightarrow> nat \<Rightarrow> nat \<Rightarrow> error + mask" where
  "layerToMask layerPoints width height =
     forEach layerPoints
       (\<lambda>p msk. case p of (px, py) \<Rightarrow>
          if py < length msk then Inr (msk[py := writeCell (msk ! py) px 1])
          else Inl TypeError)
       (newGrid height width 0)"

section \<open>The assembler (main.js)\<close>

record config =
  cfg_scale :: real
  cfg_colorCount :: nat
  cfg_minArea :: real
  cfg_smoothingIters :: nat
  cfg_simplifyEpsilon :: real
  cfg_dilation :: options

definition CONFIG :: config where
  "CONFIG = \<lparr>cfg_scale = 2.0, cfg_colorCount = 16, cfg_minArea = 10, cfg_smoothingIters = 1,
             cfg_simplifyEpsilon = 1.0,
             cfg_dilation = \<lparr>unconditionalPasses = Some 1, smartPasses = Some 1\<rparr>\<rparr>"

text \<open>
  \<open>getPolygonArea\<close>: the loop adds \<open>points[i].x * points[j].y\<close> and subtracts
  \<open>points[j].x * points[i].y\<close>, with \<open>j = (i + 1) % points.length\<close>.
\<close>

definition getPolygonArea :: "point list \<Rightarrow> real" where
  "getPolygonArea points =
     \<bar>fold (\<lambda>i area.
              let j = (i + 1) mod length points
              in area + fst (points ! i) * snd (points ! j)
                      - fst (points ! j) * snd (points ! i))
         [0..<length points] 0\<bar> / 2"

text \<open>
  The shapes \<open>{curves, fillColor, area, isHole}\<close>. \<open>fillColor\<close> is the colour of the layer;
  its formatting as the string \<open>rgb(r,g,b)\<close> is not modelled.
\<close>

record shape =
  shape_curves :: "curve list"
  shape_fillColor :: color
  shape_area :: real
  shape_isHole :: bool

text \<open>The coverage mask: 1 where the alpha byte is above 20.\<close>

definition coverageOf :: "pixelData \<Rightarrow> mask" where
  "coverageOf pixelData =
     (let width = pd_width pixelData;
          height = pd_height pixelData;
          pixels = pd_pixels pixelData
      in fold (\<lambda>y coverageMask.
                 fold (\<lambda>x coverageMask.
                         if alphaVisible pixels (y * width + x)
                         then setCell coverageMask y x 1
                         else coverageMask)
                   [0..<width] coverageMask)
           [0..<height] (newGrid height width 0))"

text \<open>
  The callback of \<open>contours.map\<close>: \<open>None\<close> is the \<open>null\<close> of a contour below the minimum
  area, which the following \<open>filter\<close> drops. The pixels of the contour are read as points.
  \<open>stackDepth\<close> is the room on the call stack for nested calls of \<open>simplifyPath\<close>; a
  simplification that exhausts it throws a \<open>RangeError\<close>.
\<close>

definition shapeOf :: "nat \<Rightarrow> color \<Rightarrow> contour \<Rightarrow> error + shape option" where
  "shapeOf stackDepth rgbColor contour =
     (let points = map (\<lambda>(x, y). (real_of_int x, real_of_int y)) (contour_points contour);
          area = getPolygonArea points
      in if area < cfg_minArea CONFIG then Inr None
         else
           (let smoothed = smoothPoints points (cfg_smoothingIters CONFIG)
            in case simplifyPath stackDepth smoothed (cfg_simplifyEpsilon CONFIG) of
                 Inl e \<Rightarrow> Inl e
               | Inr simplified \<Rightarrow>
                   Inr (Some \<lparr>shape_curves = fitCurves simplified, shape_fillColor = rgbColor,
                              shape_area = area, shape_isHole = contour_isHole contour\<rparr>)))"

text \<open>The body of the loop over the layers, on \<open>allShapes\<close>.\<close>

definition processLayer ::
  "nat \<Rightarrow> pixelData \<Rightarrow> mask \<Rightarrow> layer \<Rightarrow> shape list \<Rightarrow> error + shape list" where
  "processLayer stackDepth pixelData coverageMask layer allShapes =
     (case layerToMask (layer_points layer) (pd_width pixelData) (pd_height pixelData) of
        Inl e \<Rightarrow> Inl e
      | Inr msk \<Rightarrow>
          (case dilateHybrid msk (Some coverageMask) (cfg_dilation CONFIG) of
             Inl e \<Rightarrow> Inl e
           | Inr dilated \<Rightarrow>
               (case traceContours dilated of
                  Inl e \<Rightarrow> Inl e
                | Inr contours \<Rightarrow>
                    (case forEach contours
                            (\<lambda>contour layerShapes.
                               case shapeOf stackDepth (layer_color layer) contour of
                                 Inl e \<Rightarrow> Inl e
                               | Inr None \<Rightarrow> Inr layerShapes
                               | Inr (Some s) \<Rightarrow> Inr (layerShapes @ [s]))
                            [] of
                       Inl e \<Rightarrow> Inl e
                     | Inr layerShapes \<Rightarrow> Inr (allShapes @ layerShapes)))))"

text \<open>
  The part of \<open>main\<close> after the quantization: the loop over the layers and the stable
  sort by descending area. \<open>assembleShapes\<close> returns the list handed to \<open>buildSVG\<close>.
\<close>

definition assembleShapes :: "nat \<Rightarrow> pixelData \<Rightarrow> layer list \<Rightarrow> error + shape list" where
  "assembleShapes stackDepth pixelData layers =
     (case forEach layers (processLayer stackDepth pixelData (coverageOf pixelData)) [] of
        Inl e \<Rightarrow> Inl e
      | Inr allShapes \<Rightarrow> Inr (sort_key (\<lambda>s. - shape_area s) allShapes))"

text \<open>
  \<open>main\<close> between \<open>extractPixels\<close> and \<open>buildSVG\<close>: the shape list of a pixel buffer.
\<close>

definition mainShapes :: "nat \<Rightarrow> (nat \<Rightarrow> real) \<Rightarrow> pixelData \<Rightarrow> error + shape list" where
  "mainShapes stackDepth rnd pixelData =
     (case quantizeImage rnd pixelData (cfg_colorCount CONFIG) of
        Inl e \<Rightarrow> Inl e
      | Inr layers \<Rightarrow> assembleShapes stackDepth pixelData layers)"

section \<open>Properties of the loops\<close>

lemma forEach_prefix_rule:
  assumes "P [] s"
    and "\<And>pre a post t. xs = pre @ a # post \<Longrightarrow> P pre t \<Longrightarrow> \<exists>t'. body a t = Inr t' \<and> P (pre @ [a]) t'"
  shows "\<exists>s'. forEach xs body s = Inr s' \<and> P xs s'"
  using assms
proof (induction xs arbitrary: s P)
  case Nil
  then show ?case by simp
next
  case (Cons a xs)
  from Cons.prems(2)[of "[]" a xs s] Cons.prems(1)
  obtain s1 where s1: "body a s = Inr s1" "P [a] s1" by auto
  have "\<exists>s'. forEach xs body s1 = Inr s' \<and> (\<lambda>pre. P (a # pre)) xs s'"
  proof (rule Cons.IH)
    show "P [a] s1" by (rule s1)
  next
    fix pre b post t
    assume "xs = pre @ b # post" "P (a # pre) t"
    then show "\<exists>t'. body b t = Inr t' \<and> P (a # pre @ [b]) t'"
      using Cons.prems(2)[of "a # pre" b post t] by simp
  qed
  with s1 show ?case by simp
qed

section \<open>Properties of dilation\<close>

lemma rect_newGrid: "rect h w (newGrid h w v)"
  by (simp add: rect_def newGrid_def)

lemma newGrid_nth: "y < h \<Longrightarrow> x < w \<Longrightarrow> newGrid h w v ! y ! x = v"
  by (simp add: newGrid_def)

lemma rect_row: "rect h w g \<Longrightarrow> y < h \<Longrightarrow> length (g ! y) = w"
  by (auto simp: rect_def)

lemma rect_setCell: "rect h w g \<Longrightarrow> rect h w (setCell g y x v)"
proof (cases "y < length g")
  case True
  assume "rect h w g"
  with True show ?thesis
    by (auto simp: rect_def setCell_def dest!: set_update_subset_insert[THEN subsetD])
next
  case False
  assume "rect h w g"
  with False show ?thesis by (simp add: setCell_def list_update_beyond)
qed

lemma setCell_nth:
  "y < length g \<Longrightarrow> x < length (g ! y) \<Longrightarrow>
   setCell g y x v ! y' ! x' = (if y' = y \<and> x' = x then v else g ! y' ! x')"
  by (cases "y' = y") (auto simp: setCell_def nth_list_update)

lemma dilInv_setCell:
  assumes "dilInv cov h w S out" "y < h" "x < w" "allowed cov y x"
  shows "dilInv cov h w (insert (y, x) S) (setCell out y x 1)"
proof -
  from assms have r: "rect h w out" by (simp add: dilInv_def)
  then have len: "y < length out" "x < length (out ! y)"
    using assms(2,3) by (simp_all add: rect_def)
  show ?thesis
    using assms r unfolding dilInv_def
    by (auto simp: setCell_nth[OF len] rect_setCell)
qed

lemma dilInv_mono: "dilInv cov h w S out \<Longrightarrow> T \<subseteq> S \<Longrightarrow> dilInv cov h w T out"
  unfolding dilInv_def by blast

lemma dilateWrite_inv:
  assumes "covRows cov h" "dilInv cov h w S out"
  shows "\<exists>out'. dilateWrite cov h w ny nx out = Inr out' \<and>
           dilInv cov h w (S \<union> {(y, x). int y = ny \<and> int x = nx \<and> y < h \<and> x < w \<and> allowed cov y x}) out'"
proof (cases "ny \<ge> 0 \<and> ny < int h \<and> nx \<ge> 0 \<and> nx < int w")
  case False
  then have e: "{(y, x). int y = ny \<and> int x = nx \<and> y < h \<and> x < w \<and> allowed cov y x} = {}" by auto
  from False have "dilateWrite cov h w ny nx out = Inr out" unfolding dilateWrite_def by (simp only: if_False)
  with assms(2) show ?thesis by (simp add: e)
next
  case True
  then have b: "nat ny < h" "nat nx < w" by auto
  have eq: "{(y, x). int y = ny \<and> int x = nx \<and> y < h \<and> x < w \<and> allowed cov y x}
            = (if allowed cov (nat ny) (nat nx) then {(nat ny, nat nx)} else {})"
    using True by auto
  show ?thesis
  proof (cases "allowed cov (nat ny) (nat nx)")
    case al: True
    have "dilateWrite cov h w ny nx out = Inr (setCell out (nat ny) (nat nx) 1)"
      using True al assms(1) b
      by (auto simp: dilateWrite_def allowed_def covRows_def split: option.splits)
    moreover have "dilInv cov h w (insert (nat ny, nat nx) S) (setCell out (nat ny) (nat nx) 1)"
      by (rule dilInv_setCell[OF assms(2) b al])
    ultimately show ?thesis using al by (simp add: eq)
  next
    case al: False
    have "dilateWrite cov h w ny nx out = Inr out"
      using True al assms(1) b
      by (auto simp: dilateWrite_def allowed_def covRows_def split: option.splits)
    then show ?thesis using al assms(2) by (simp add: eq)
  qed
qed

lemma dilateRow3_inv:
  assumes "covRows cov h" "dilInv cov h w S out"
  shows "\<exists>out'. forEach [-1, 0, 1] (\<lambda>dx. dilateWrite cov h w ny (int x + dx)) out = Inr out' \<and>
           dilInv cov h w (S \<union> {(y, x'). int y = ny \<and> x' = x \<and> y < h \<and> x < w \<and> allowed cov y x}) out'"
proof -
  let ?T = "\<lambda>pre. S \<union> {(y, x'). int y = ny \<and> x' = x \<and> y < h \<and> x < w \<and> allowed cov y x \<and> (0::int) \<in> set pre}"
  have "\<exists>out'. forEach [-1, 0, 1] (\<lambda>dx. dilateWrite cov h w ny (int x + dx)) out = Inr out' \<and>
           (\<lambda>pre t. dilInv cov h w (?T pre) t) [-1, 0, 1] out'"
  proof (rule forEach_prefix_rule)
    show "dilInv cov h w (?T []) out" using assms(2) by simp
  next
    fix pre a post t
    assume "[-1, 0, 1] = pre @ a # post" and inv: "dilInv cov h w (?T pre) t"
    from dilateWrite_inv[OF assms(1) inv, of ny "int x + a"]
    obtain t' where t': "dilateWrite cov h w ny (int x + a) t = Inr t'"
      "dilInv cov h w (?T pre \<union> {(y, x'). int y = ny \<and> int x' = int x + a \<and> y < h \<and> x' < w \<and> allowed cov y x'}) t'"
      by blast
    have "dilInv cov h w (?T (pre @ [a])) t'"
      by (rule dilInv_mono[OF t'(2)]) auto
    with t'(1) show "\<exists>t'. dilateWrite cov h w ny (int x + a) t = Inr t' \<and> dilInv cov h w (?T (pre @ [a])) t'"
      by blast
  qed
  then obtain out' where o: "forEach [-1, 0, 1] (\<lambda>dx. dilateWrite cov h w ny (int x + dx)) out = Inr out'"
    "dilInv cov h w (?T [-1, 0, 1]) out'" by blast
  have "dilInv cov h w (S \<union> {(y, x'). int y = ny \<and> x' = x \<and> y < h \<and> x < w \<and> allowed cov y x}) out'"
    by (rule dilInv_mono[OF o(2)]) auto
  with o(1) show ?thesis by blast
qed

lemma dilatePixel_inv:
  assumes "covRows cov h" "dilInv cov h w S out"
  shows "\<exists>out'. dilatePixel m cov h w y x out = Inr out' \<and>
           dilInv cov h w (S \<union> {(y', x'). y' = y \<and> x' = x \<and> y < h \<and> x < w \<and> isOne m y x \<and> allowed cov y x}) out'"
proof (cases "isOne m y x")
  case False
  then show ?thesis using assms(2) by (simp add: dilatePixel_def)
next
  case True
  let ?T = "\<lambda>pre. S \<union> {(y', x'). y' = y \<and> x' = x \<and> y < h \<and> x < w \<and> allowed cov y x \<and> (0::int) \<in> set pre}"
  let ?body = "\<lambda>dy. forEach [-1, 0, 1] (\<lambda>dx. dilateWrite cov h w (int y + dy) (int x + dx))"
  have "\<exists>out'. forEach [-1, 0, 1] ?body out = Inr out' \<and> (\<lambda>pre t. dilInv cov h w (?T pre) t) [-1, 0, 1] out'"
  proof (rule forEach_prefix_rule)
    show "dilInv cov h w (?T []) out" using assms(2) by simp
  next
    fix pre a post t
    assume "[-1, 0, 1] = pre @ a # post" and inv: "dilInv cov h w (?T pre) t"
    from dilateRow3_inv[OF assms(1) inv, of "int y + a" x]
    obtain t' where t': "?body a t = Inr t'"
      "dilInv cov h w (?T pre \<union> {(y', x'). int y' = int y + a \<and> x' = x \<and> y' < h \<and> x < w \<and> allowed cov y' x}) t'"
      by blast
    have "dilInv cov h w (?T (pre @ [a])) t'"
      by (rule dilInv_mono[OF t'(2)]) auto
    with t'(1) show "\<exists>t'. ?body a t = Inr t' \<and> dilInv cov h w (?T (pre @ [a])) t'"
      by blast
  qed
  then obtain out' where o: "forEach [-1, 0, 1] ?body out = Inr out'"
    "dilInv cov h w (?T [-1, 0, 1]) out'" by blast
  have "dilInv cov h w (S \<union> {(y', x'). y' = y \<and> x' = x \<and> y < h \<and> x < w \<and> isOne m y x \<and> allowed cov y x}) out'"
    by (rule dilInv_mono[OF o(2)]) auto
  with o(1) True show ?thesis by (simp add: dilatePixel_def)
qed

lemma dilateLine_inv:
  assumes "covRows cov h" "dilInv cov h w S out"
  shows "\<exists>out'. forEach [0..<w] (\<lambda>x. dilatePixel m cov h w y x) out = Inr out' \<and>
           dilInv cov h w (S \<union> {(y', x). y' = y \<and> y < h \<and> x < w \<and> isOne m y x \<and> allowed cov y x}) out'"
proof -
  let ?T = "\<lambda>pre. S \<union> {(y', x). y' = y \<and> y < h \<and> x < w \<and> isOne m y x \<and> allowed cov y x \<and> x \<in> set pre}"
  let ?body = "\<lambda>x. dilatePixel m cov h w y x"
  have "\<exists>out'. forEach [0..<w] ?body out = Inr out' \<and> (\<lambda>pre t. dilInv cov h w (?T pre) t) [0..<w] out'"
  proof (rule forEach_prefix_rule)
    show "dilInv cov h w (?T []) out" using assms(2) by simp
  next
    fix pre a post t
    assume "[0..<w] = pre @ a # post" and inv: "dilInv cov h w (?T pre) t"
    from dilatePixel_inv[OF assms(1) inv, of m y a]
    obtain t' where t': "?body a t = Inr t'"
      "dilInv cov h w (?T pre \<union> {(y', x'). y' = y \<and> x' = a \<and> y < h \<and> a < w \<and> isOne m y a \<and> allowed cov y a}) t'"
      by blast
    have "dilInv cov h w (?T (pre @ [a])) t'"
      by (rule dilInv_mono[OF t'(2)]) auto
    with t'(1) show "\<exists>t'. ?body a t = Inr t' \<and> dilInv cov h w (?T (pre @ [a])) t'"
      by blast
  qed
  then obtain out' where o: "forEach [0..<w] ?body out = Inr out'"
    "dilInv cov h w (?T [0..<w]) out'" by blast
  have "dilInv cov h w (S \<union> {(y', x). y' = y \<and> y < h \<and> x < w \<and> isOne m y x \<and> allowed cov y x}) out'"
    by (rule dilInv_mono[OF o(2)]) auto
  with o(1) show ?thesis by blast
qed

lemma dilateGrid_inv:
  assumes "covRows cov h" "dilInv cov h w S out"
  shows "\<exists>out'. forEach [0..<h] (\<lambda>y. forEach [0..<w] (\<lambda>x. dilatePixel m cov h w y x)) out = Inr out' \<and>
           dilInv cov h w (S \<union> {(y, x). y < h \<and> x < w \<and> isOne m y x \<and> allowed cov y x}) out'"
proof -
  let ?T = "\<lambda>pre. S \<union> {(y, x). y < h \<and> x < w \<and> isOne m y x \<and> allowed cov y x \<and> y \<in> set pre}"
  let ?body = "\<lambda>y. forEach [0..<w] (\<lambda>x. dilatePixel m cov h w y x)"
  have "\<exists>out'. forEach [0..<h] ?body out = Inr out' \<and> (\<lambda>pre t. dilInv cov h w (?T pre) t) [0..<h] out'"
  proof (rule forEach_prefix_rule)
    show "dilInv cov h w (?T []) out" using assms(2) by simp
  next
    fix pre a post t
    assume "[0..<h] = pre @ a # post" and inv: "dilInv cov h w (?T pre) t"
    from dilateLine_inv[OF assms(1) inv, of m a]
    obtain t' where t': "?body a t = Inr t'"
      "dilInv cov h w (?T pre \<union> {(y', x). y' = a \<and> a < h \<and> x < w \<and> isOne m a x \<and> allowed cov a x}) t'"
      by blast
    have "dilInv cov h w (?T (pre @ [a])) t'"
      by (rule dilInv_mono[OF t'(2)]) auto
    with t'(1) show "\<exists>t'. ?body a t = Inr t' \<and> dilInv cov h w (?T (pre @ [a])) t'"
      by blast
  qed
  then obtain out' where o: "forEach [0..<h] ?body out = Inr out'"
    "dilInv cov h w (?T [0..<h]) out'" by blast
  have "dilInv cov h w (S \<union> {(y, x). y < h \<and> x < w \<and> isOne m y x \<and> allowed cov y x}) out'"
    by (rule dilInv_mono[OF o(2)]) auto
  with o(1) show ?thesis by blast
qed

lemma dilInv_newGrid: "dilInv cov h w {} (newGrid h w 0)"
  by (simp add: dilInv_def rect_newGrid newGrid_nth)

lemma dilateOnce_spec:
  assumes "m \<noteq> []" "covRows cov (length m)"
  shows "\<exists>out. dilateOnce m cov = Inr out \<and>
           dilInv cov (length m) (length (m ! 0))
             {(y, x). y < length m \<and> x < length (m ! 0) \<and> isOne m y x \<and> allowed cov y x} out"
proof -
  from assms(1) obtain row0 rest where m: "m = row0 # rest" by (cases m) auto
  from dilateGrid_inv[OF assms(2) dilInv_newGrid, of "length (m ! 0)" m]
  show ?thesis by (simp add: dilateOnce_def m Let_def)
qed


lemma dilateOnce_rect:
  assumes "rect h w m" "0 < h" "covRows cov h"
  shows "\<exists>out. dilateOnce m cov = Inr out \<and> rect h w out \<and>
           (\<forall>y<h. \<forall>x<w. m ! y ! x = 1 \<and> allowed cov y x \<longrightarrow> out ! y ! x = 1) \<and>
           (\<forall>y<h. \<forall>x<w. out ! y ! x = 0 \<or> (out ! y ! x = 1 \<and> allowed cov y x))"
proof -
  from assms have ne: "m \<noteq> []" and len: "length m = h" "length (m ! 0) = w"
    by (auto simp: rect_def)
  from dilateOnce_spec[OF ne] assms(3) len
  obtain out where o: "dilateOnce m cov = Inr out"
    "dilInv cov h w {(y, x). y < h \<and> x < w \<and> isOne m y x \<and> allowed cov y x} out"
    by auto
  have "isOne m y x" if "y < h" "x < w" "m ! y ! x = 1" for y x
    using that rect_row[OF assms(1) that(1)] by (simp add: isOne_def)
  with o show ?thesis unfolding dilInv_def by blast
qed

lemma unconditional_passes:
  assumes "rect h w m" "0 < h" "y < h" "x < w" "m ! y ! x = 1"
  shows "\<exists>out. forEach [0..<n] (\<lambda>i result. dilateOnce result None) m = Inr out \<and>
           rect h w out \<and> out ! y ! x = 1"
proof -
  have "\<exists>out. forEach [0..<n] (\<lambda>i result. dilateOnce result None) m = Inr out \<and>
          (\<lambda>pre r. rect h w r \<and> r ! y ! x = 1) [0..<n] out"
  proof (rule forEach_prefix_rule)
    show "rect h w m \<and> m ! y ! x = 1" using assms by simp
  next
    fix pre :: "nat list" and a :: nat and post :: "nat list" and t :: mask
    assume "rect h w t \<and> t ! y ! x = 1"
    then show "\<exists>t'. dilateOnce t None = Inr t' \<and> rect h w t' \<and> t' ! y ! x = 1"
      using dilateOnce_rect[of h w t None] assms(2,3,4)
      by (auto simp: covRows_def allowed_def)
  qed
  then show ?thesis by simp
qed

lemma unconditional_passes_rect:
  assumes "rect h w m" "0 < h"
  shows "\<exists>out. forEach [0..<n] (\<lambda>i result. dilateOnce result None) m = Inr out \<and> rect h w out"
proof -
  have "\<exists>out. forEach [0..<n] (\<lambda>i result. dilateOnce result None) m = Inr out \<and>
          (\<lambda>pre r. rect h w r) [0..<n] out"
  proof (rule forEach_prefix_rule)
    show "rect h w m" using assms by simp
  next
    fix pre :: "nat list" and a :: nat and post :: "nat list" and t :: mask
    assume "rect h w t"
    then show "\<exists>t'. dilateOnce t None = Inr t' \<and> rect h w t'"
      using dilateOnce_rect[of h w t None] assms(2)
      by (auto simp: covRows_def)
  qed
  then show ?thesis by simp
qed

lemma smart_passes_keep:
  assumes "rect h w m" "rect h w c" "0 < h" "y < h" "x < w" "m ! y ! x = 1" "c ! y ! x = 1"
  shows "\<exists>out. forEach [0..<n] (\<lambda>i result. dilateOnce result (Some c)) m = Inr out \<and>
           rect h w out \<and> out ! y ! x = 1"
proof -
  have al: "allowed (Some c) y x"
    using assms(4,5,7) rect_row[OF assms(2,4)] by (simp add: allowed_def isOne_def)
  have cr: "covRows (Some c) h" using assms(2) by (simp add: covRows_def rect_def)
  have "\<exists>out. forEach [0..<n] (\<lambda>i result. dilateOnce result (Some c)) m = Inr out \<and>
          (\<lambda>pre r. rect h w r \<and> r ! y ! x = 1) [0..<n] out"
  proof (rule forEach_prefix_rule)
    show "rect h w m \<and> m ! y ! x = 1" using assms by simp
  next
    fix pre :: "nat list" and a :: nat and post :: "nat list" and t :: mask
    assume "rect h w t \<and> t ! y ! x = 1"
    then show "\<exists>t'. dilateOnce t (Some c) = Inr t' \<and> rect h w t' \<and> t' ! y ! x = 1"
      using dilateOnce_rect[of h w t "Some c"] assms(3,4,5) al cr
      by auto
  qed
  then show ?thesis by simp
qed

lemma smart_passes_bounded:
  assumes "rect h w m" "rect h w c" "0 < h" "0 < n"
  shows "\<exists>out. forEach [0..<n] (\<lambda>i result. dilateOnce result (Some c)) m = Inr out \<and>
           rect h w out \<and> (\<forall>y<h. \<forall>x<w. c ! y ! x \<noteq> 1 \<longrightarrow> out ! y ! x = 0)"
proof -
  have cr: "covRows (Some c) h" using assms(2) by (simp add: covRows_def rect_def)
  let ?B = "\<lambda>r. \<forall>y<h. \<forall>x<w. c ! y ! x \<noteq> 1 \<longrightarrow> r ! y ! x = (0::nat)"
  have "\<exists>out. forEach [0..<n] (\<lambda>i result. dilateOnce result (Some c)) m = Inr out \<and>
          (\<lambda>pre r. rect h w r \<and> (pre \<noteq> [] \<longrightarrow> ?B r)) [0..<n] out"
  proof (rule forEach_prefix_rule)
    show "rect h w m \<and> ([] \<noteq> [] \<longrightarrow> ?B m)" using assms by simp
  next
    fix pre :: "nat list" and a :: nat and post :: "nat list" and t :: mask
    assume "rect h w t \<and> (pre \<noteq> [] \<longrightarrow> ?B t)"
    then have "rect h w t" by simp
    from dilateOnce_rect[OF this assms(3) cr]
    obtain t' where t': "dilateOnce t (Some c) = Inr t'" "rect h w t'"
      "\<forall>y<h. \<forall>x<w. t' ! y ! x = 0 \<or> (t' ! y ! x = 1 \<and> allowed (Some c) y x)"
      by blast
    have "?B t'" using t'(3) by (auto simp: allowed_def isOne_def)
    with t' show "\<exists>t'. dilateOnce t (Some c) = Inr t' \<and> rect h w t' \<and> (pre @ [a] \<noteq> [] \<longrightarrow> ?B t')"
      by simp
  qed
  with assms(4) show ?thesis by simp
qed

text \<open>
  Claim C1, as the code has it. A set pixel of the input stays set by an unconditional
  pass; by a coverage-bounded pass it stays set where the coverage mask is 1; and by
  \<open>dilateHybrid\<close> it stays set where the coverage mask is 1 or no coverage-bounded pass
  is run. Each of these calls returns on masks of equal dimensions with at least one row.
\<close>

theorem dilate_superset_within_coverage:
  assumes "rect h w M" "rect h w C" "0 < h" "y < h" "x < w" "M ! y ! x = 1"
  shows "(\<exists>out. dilateOnce M None = Inr out \<and> out ! y ! x = 1) \<and>
         (C ! y ! x = 1 \<longrightarrow> (\<exists>out. dilateOnce M (Some C) = Inr out \<and> out ! y ! x = 1)) \<and>
         (C ! y ! x = 1 \<or> passCount (smartPasses opts) = 0 \<longrightarrow>
            (\<exists>out. dilateHybrid M (Some C) opts = Inr out \<and> out ! y ! x = 1))"
proof (intro conjI impI)
  show "\<exists>out. dilateOnce M None = Inr out \<and> out ! y ! x = 1"
    using dilateOnce_rect[OF assms(1,3), of None] assms(4,5,6)
    by (auto simp: covRows_def allowed_def)
next
  assume c: "C ! y ! x = 1"
  have "allowed (Some C) y x"
    using c assms(5) rect_row[OF assms(2,4)] by (simp add: allowed_def isOne_def)
  moreover have "covRows (Some C) h" using assms(2) by (simp add: covRows_def rect_def)
  ultimately show "\<exists>out. dilateOnce M (Some C) = Inr out \<and> out ! y ! x = 1"
    using dilateOnce_rect[OF assms(1,3), of "Some C"] assms(4,5,6) by auto
next
  assume c: "C ! y ! x = 1 \<or> passCount (smartPasses opts) = 0"
  from unconditional_passes[OF assms(1,3,4,5,6), of "passCount (unconditionalPasses opts)"]
  obtain r where r: "forEach [0..<passCount (unconditionalPasses opts)]
      (\<lambda>i result. dilateOnce result None) M = Inr r" "rect h w r" "r ! y ! x = 1"
    by blast
  show "\<exists>out. dilateHybrid M (Some C) opts = Inr out \<and> out ! y ! x = 1"
  proof (cases "passCount (smartPasses opts) = 0")
    case True
    with r show ?thesis by (simp add: dilateHybrid_def)
  next
    case False
    with c have "C ! y ! x = 1" by simp
    from smart_passes_keep[OF r(2) assms(2,3,4,5) r(3) this, of "passCount (smartPasses opts)"] r(1)
    show ?thesis by (auto simp: dilateHybrid_def)
  qed
qed

text \<open>
  Claim C1 as stated fails: a coverage-bounded pass writes into a fresh buffer and copies
  nothing, so a set pixel of the input where the coverage mask is 0 is cleared, by
  \<open>dilateOnce\<close> and by \<open>dilateHybrid\<close> with its default options.
\<close>

theorem dilate_superset_counterexample:
  "[[1]] ! 0 ! 0 = (1::nat) \<and>
   dilateOnce [[1]] (Some [[0]]) = Inr [[0]] \<and>
   dilateHybrid [[1]] (Some [[0]]) defaults = Inr [[0]]"
  by (simp add: dilateHybrid_def dilateOnce_def dilatePixel_def dilateWrite_def isOne_def
      setCell_def newGrid_def passCount_def defaults_def)

theorem dilate_superset_within_coverage_witness:
  "rect 2 2 [[1, 0], [0, 0::nat]] \<and> rect 2 2 [[1, 1], [0, 1::nat]] \<and>
   dilateOnce [[1, 0], [0, 0]] None = Inr [[1, 1], [1, 1]] \<and>
   dilateOnce [[1, 0], [0, 0]] (Some [[1, 1], [0, 1]]) = Inr [[1, 1], [0, 1]] \<and>
   (\<exists>out. dilateHybrid [[1, 0], [0, 0]] (Some [[1, 1], [0, 1]]) defaults = Inr out \<and> out ! 0 ! 0 = 1)"
proof -
  have r: "rect 2 2 [[1, 0], [0, 0::nat]]" "rect 2 2 [[1, 1], [0, 1::nat]]"
    by (simp_all add: rect_def)
  have e1: "dilateOnce [[1, 0], [0, 0]] None = Inr [[1, 1], [1, 1]]"
    by (simp add: dilateOnce_def dilatePixel_def dilateWrite_def isOne_def
      setCell_def newGrid_def upt_rec numeral_2_eq_2)
  have e2: "dilateOnce [[1, 0], [0, 0]] (Some [[1, 1], [0, 1]]) = Inr [[1, 1], [0, 1]]"
    by (simp add: dilateOnce_def dilatePixel_def dilateWrite_def isOne_def
      setCell_def newGrid_def upt_rec numeral_2_eq_2)
  from dilate_superset_within_coverage[OF r, of 0 0 defaults] e1 e2 r
  show ?thesis by simp
qed

text \<open>
  Claim C5. A coverage-bounded pass of \<open>dilateOnce\<close> on a mask and a coverage mask of
  equal dimensions returns a grid of the same dimensions that is 0 wherever the coverage
  mask is not 1, and so does \<open>dilateHybrid\<close> when it runs at least one coverage-bounded
  pass.
\<close>

theorem dilate_bounded_by_coverage:
  assumes "rect h w M" "rect h w C" "0 < h"
  shows "(\<exists>out. dilateOnce M (Some C) = Inr out \<and> rect h w out \<and>
            (\<forall>y<h. \<forall>x<w. C ! y ! x \<noteq> 1 \<longrightarrow> out ! y ! x = 0)) \<and>
         (0 < passCount (smartPasses opts) \<longrightarrow>
            (\<exists>out. dilateHybrid M (Some C) opts = Inr out \<and> rect h w out \<and>
               (\<forall>y<h. \<forall>x<w. C ! y ! x \<noteq> 1 \<longrightarrow> out ! y ! x = 0)))"
proof (intro conjI impI)
  have cr: "covRows (Some C) h" using assms(2) by (simp add: covRows_def rect_def)
  from dilateOnce_rect[OF assms(1,3) cr]
  obtain out where o: "dilateOnce M (Some C) = Inr out" "rect h w out"
    "\<forall>y<h. \<forall>x<w. out ! y ! x = 0 \<or> (out ! y ! x = 1 \<and> allowed (Some C) y x)"
    by blast
  have "\<forall>y<h. \<forall>x<w. C ! y ! x \<noteq> 1 \<longrightarrow> out ! y ! x = 0"
    using o(3) by (auto simp: allowed_def isOne_def)
  with o(1,2)
  show "\<exists>out. dilateOnce M (Some C) = Inr out \<and> rect h w out \<and>
            (\<forall>y<h. \<forall>x<w. C ! y ! x \<noteq> 1 \<longrightarrow> out ! y ! x = 0)"
    by blast
next
  assume p: "0 < passCount (smartPasses opts)"
  from unconditional_passes_rect[OF assms(1,3), of "passCount (unconditionalPasses opts)"]
  obtain r where r: "forEach [0..<passCount (unconditionalPasses opts)]
      (\<lambda>i result. dilateOnce result None) M = Inr r" "rect h w r"
    by blast
  from smart_passes_bounded[OF r(2) assms(2,3) p] r(1)
  show "\<exists>out. dilateHybrid M (Some C) opts = Inr out \<and> rect h w out \<and>
               (\<forall>y<h. \<forall>x<w. C ! y ! x \<noteq> 1 \<longrightarrow> out ! y ! x = 0)"
    by (simp add: dilateHybrid_def)
qed

theorem dilate_bounded_by_coverage_witness:
  "rect 2 2 [[1, 0], [0, 0::nat]] \<and> rect 2 2 [[1, 1], [0, 1::nat]] \<and>
   dilateHybrid [[1, 0], [0, 0]] (Some [[1, 1], [0, 1]]) defaults = Inr [[1, 1], [0, 1]] \<and>
   (\<exists>out. dilateOnce [[1, 0], [0, 0]] (Some [[1, 1], [0, 1]]) = Inr out \<and>
      (\<forall>y<2. \<forall>x<2. [[1, 1], [0, 1]] ! y ! x \<noteq> (1::nat) \<longrightarrow> out ! y ! x = 0))"
proof -
  have r: "rect 2 2 [[1, 0], [0, 0::nat]]" "rect 2 2 [[1, 1], [0, 1::nat]]"
    by (simp_all add: rect_def)
  have e: "dilateHybrid [[1, 0], [0, 0]] (Some [[1, 1], [0, 1]]) defaults = Inr [[1, 1], [0, 1]]"
    by (simp add: dilateHybrid_def dilateOnce_def dilatePixel_def dilateWrite_def isOne_def
      setCell_def newGrid_def upt_rec numeral_2_eq_2 passCount_def defaults_def)
  have pos: "0 < (2::nat)" by simp
  from dilate_bounded_by_coverage[OF r pos, of defaults]
  have "\<exists>out. dilateOnce [[1, 0], [0, 0]] (Some [[1, 1], [0, 1]]) = Inr out \<and>
      (\<forall>y<2. \<forall>x<2. [[1, 1], [0, 1]] ! y ! x \<noteq> (1::nat) \<longrightarrow> out ! y ! x = 0)"
    by blast
  with e r show ?thesis by blast
qed

section \<open>Properties of contour tracing\<close>

lemma DIRECTIONS_nth:
  assumes "k < 8"
  shows "DIRECTIONS ! k \<in> set DIRECTIONS"
proof (rule nth_mem)
  have "length DIRECTIONS = 8" by (simp add: DIRECTIONS_def)
  with assms show "k < length DIRECTIONS" by simp
qed

lemma DIRECTIONS_step:
  assumes "d \<in> set DIRECTIONS"
  shows "adjacent8 (cx + fst d, cy + snd d) (cx, cy)"
  using assms by (auto simp: DIRECTIONS_def adjacent8_def)

lemma scanNeighbours_found:
  assumes "scanNeighbours msk cx cy bd ks = Inr (Some (nx, ny, bd'))"
  shows "adjacent8 (nx, ny) (cx, cy) \<and> foreground msk nx ny"
  using assms
proof (induction ks)
  case Nil
  then show ?case by simp
next
  case (Cons i rest)
  let ?d = "DIRECTIONS ! ((bd + i) mod 8)"
  have d: "adjacent8 (cx + fst ?d, cy + snd ?d) (cx, cy)"
    by (rule DIRECTIONS_step[OF DIRECTIONS_nth]) simp
  from Cons show ?case
    using d by (auto simp: Let_def foreground_def split: if_splits list.splits)
qed

lemma scanNeighbours_error:
  assumes "scanNeighbours msk cx cy bd ks = Inl e"
  shows "e = TypeError \<and> msk = []"
  using assms
  by (induction ks) (auto simp: Let_def split: if_splits list.splits)

lemma scanNeighbours_isolated:
  assumes "msk \<noteq> []" "\<forall>d\<in>set DIRECTIONS. \<not> foreground msk (cx + fst d) (cy + snd d)"
  shows "scanNeighbours msk cx cy bd ks = Inr None"
proof (induction ks)
  case Nil
  then show ?case by simp
next
  case (Cons i rest)
  let ?d = "DIRECTIONS ! ((bd + i) mod 8)"
  have "?d \<in> set DIRECTIONS" by (rule DIRECTIONS_nth) simp
  with assms(2) have "\<not> foreground msk (cx + fst ?d) (cy + snd ?d)" by blast
  with Cons assms(1) show ?case
    by (auto simp: Let_def foreground_def split: list.splits)
qed

lemma traceLoop_result:
  assumes "traceLoop msk sx sy cx cy bd lc contour = Inr (ex, c)"
    and "contour \<noteq> []" "last contour = (cx, cy)"
  shows "\<exists>suffix. c = contour @ suffix \<and> (sx, sy) \<notin> set suffix
           \<and> (\<forall>p\<in>set suffix. foreground msk (fst p) (snd p))
           \<and> length suffix \<le> MAX_LOOP - lc
           \<and> (ex = Closed \<longrightarrow> adjacent8 (last c) (sx, sy))"
  using assms
proof (induction msk sx sy cx cy bd lc contour rule: traceLoop.induct)
  case (1 msk sx sy cx cy bd lc contour)
  show ?case
  proof (cases "lc + 1 > MAX_LOOP")
    case True
    with "1.prems" show ?thesis by (simp add: traceLoop.simps)
  next
    case cap: False
    show ?thesis
    proof (cases "scanNeighbours msk cx cy bd [0..<8]")
      case (Inl e)
      with cap "1.prems" show ?thesis by (simp add: traceLoop.simps)
    next
      case (Inr found)
      show ?thesis
      proof (cases found)
        case None
        with Inr cap "1.prems" show ?thesis by (simp add: traceLoop.simps)
      next
        case (Some t)
        obtain nx ny bd' where t: "t = (nx, ny, bd')" by (cases t) auto
        have sc: "scanNeighbours msk cx cy bd [0..<8] = Inr (Some (nx, ny, bd'))"
          using Inr Some t by simp
        from scanNeighbours_found[OF sc] have adj: "adjacent8 (nx, ny) (cx, cy)"
          and fg: "foreground msk nx ny" by simp_all
        show ?thesis
        proof (cases "nx = sx \<and> ny = sy")
          case True
          with sc cap "1.prems" have "ex = Closed" "c = contour"
            by (simp_all add: traceLoop.simps)
          moreover have "adjacent8 (last contour) (sx, sy)"
            using adj True "1.prems"(3) by (auto simp: adjacent8_def)
          ultimately show ?thesis by simp
        next
          case False
          with sc cap "1.prems"(1)
          have rec: "traceLoop msk sx sy nx ny bd' (lc + 1) (contour @ [(nx, ny)]) = Inr (ex, c)"
            by (simp add: traceLoop.simps)
          from "1.IH"[OF cap sc refl refl refl False rec]
          obtain suffix where s: "c = (contour @ [(nx, ny)]) @ suffix" "(sx, sy) \<notin> set suffix"
            "length suffix \<le> MAX_LOOP - (lc + 1)" "ex = Closed \<longrightarrow> adjacent8 (last c) (sx, sy)"
            and sfg: "\<forall>p\<in>set suffix. foreground msk (fst p) (snd p)"
            by auto
          have "c = contour @ ((nx, ny) # suffix)" using s(1) by simp
          moreover have "(sx, sy) \<notin> set ((nx, ny) # suffix)" using s(2) False by auto
          moreover have "\<forall>p\<in>set ((nx, ny) # suffix). foreground msk (fst p) (snd p)"
            using sfg fg by simp
          moreover have "length ((nx, ny) # suffix) \<le> MAX_LOOP - lc" using s(3) cap by simp
          ultimately show ?thesis using s(4) by blast
        qed
      qed
    qed
  qed
qed

lemma traceLoop_error:
  assumes "traceLoop msk sx sy cx cy bd lc contour = Inl e"
  shows "e = TypeError \<and> msk = []"
  using assms
proof (induction msk sx sy cx cy bd lc contour rule: traceLoop.induct)
  case (1 msk sx sy cx cy bd lc contour)
  show ?case
  proof (cases "lc + 1 > MAX_LOOP")
    case True
    with "1.prems" show ?thesis by (simp add: traceLoop.simps)
  next
    case cap: False
    show ?thesis
    proof (cases "scanNeighbours msk cx cy bd [0..<8]")
      case (Inl e')
      with cap "1.prems" have "e' = e" by (simp add: traceLoop.simps)
      with scanNeighbours_error[OF Inl] show ?thesis by simp
    next
      case (Inr found)
      show ?thesis
      proof (cases found)
        case None
        with Inr cap "1.prems" show ?thesis by (simp add: traceLoop.simps)
      next
        case (Some t)
        obtain nx ny bd' where t: "t = (nx, ny, bd')" by (cases t) auto
        have sc: "scanNeighbours msk cx cy bd [0..<8] = Inr (Some (nx, ny, bd'))"
          using Inr Some t by simp
        show ?thesis
        proof (cases "nx = sx \<and> ny = sy")
          case True
          with sc cap "1.prems" show ?thesis by (simp add: traceLoop.simps)
        next
          case False
          with sc cap "1.prems"(1)
          have rec: "traceLoop msk sx sy nx ny bd' (lc + 1) (contour @ [(nx, ny)]) = Inl e"
            by (simp add: traceLoop.simps)
          from "1.IH"[OF cap sc refl refl refl False rec] show ?thesis .
        qed
      qed
    qed
  qed
qed

lemma traceWalk_shape:
  assumes "traceWalk msk sx sy bd = Inr (ex, c)"
  shows "\<exists>rest. c = (sx, sy) # rest \<and> (sx, sy) \<notin> set rest \<and> length rest \<le> MAX_LOOP
           \<and> (\<forall>p\<in>set rest. foreground msk (fst p) (snd p))
           \<and> (ex = Closed \<longrightarrow> adjacent8 (last c) (sx, sy))"
  using traceLoop_result[of msk sx sy sx sy bd 0 "[(sx, sy)]" ex c] assms
  by (auto simp: traceWalk_def)


text \<open>
  Claim C8. \<open>mooreNeighborTrace\<close> returns on every mask, start pixel and backtrack
  direction: the walk is a total function, its loop bounded by \<open>MAX_LOOP\<close>. It throws
  only on a mask with no rows; otherwise it returns a contour that starts with the start
  pixel and has between 1 and \<open>MAX_LOOP + 1\<close> points. A start pixel with no foreground
  pixel among its 8 neighbours gives the contour of that one pixel.
\<close>

theorem mooreNeighborTrace_returns:
  "(case mooreNeighborTrace msk sx sy visited bd of
      Inl e \<Rightarrow> e = TypeError \<and> msk = []
    | Inr c \<Rightarrow> 1 \<le> length c \<and> length c \<le> MAX_LOOP + 1 \<and> hd c = (sx, sy)) \<and>
   (msk \<noteq> [] \<and> (\<forall>d\<in>set DIRECTIONS. \<not> foreground msk (sx + fst d) (sy + snd d))
      \<longrightarrow> mooreNeighborTrace msk sx sy visited bd = Inr [(sx, sy)])"
proof (intro conjI impI)
  show "case mooreNeighborTrace msk sx sy visited bd of
      Inl e \<Rightarrow> e = TypeError \<and> msk = []
    | Inr c \<Rightarrow> 1 \<le> length c \<and> length c \<le> MAX_LOOP + 1 \<and> hd c = (sx, sy)"
  proof (cases "traceWalk msk sx sy bd")
    case (Inl e)
    then have "e = TypeError \<and> msk = []"
      using traceLoop_error by (simp add: traceWalk_def)
    with Inl show ?thesis by (simp add: mooreNeighborTrace_def)
  next
    case (Inr r)
    obtain ex c where r: "r = (ex, c)" by (cases r) auto
    from traceWalk_shape[of msk sx sy bd ex c] Inr r
    obtain rest where "c = (sx, sy) # rest" "length rest \<le> MAX_LOOP" by auto
    with Inr r show ?thesis by (simp add: mooreNeighborTrace_def)
  qed
next
  assume "msk \<noteq> [] \<and> (\<forall>d\<in>set DIRECTIONS. \<not> foreground msk (sx + fst d) (sy + snd d))"
  then have "scanNeighbours msk sx sy bd [0..<8] = Inr None"
    using scanNeighbours_isolated by blast
  then show "mooreNeighborTrace msk sx sy visited bd = Inr [(sx, sy)]"
    by (simp add: mooreNeighborTrace_def traceWalk_def traceLoop.simps MAX_LOOP_def)
qed

theorem mooreNeighborTrace_returns_witness:
  "[[0, 0, 0], [0, 1, 0], [0, 0, 0::nat]] \<noteq> [] \<and>
   list_all (\<lambda>d. \<not> foreground [[0, 0, 0], [0, 1, 0], [0, 0, 0]] (1 + fst d) (1 + snd d))
     DIRECTIONS \<and>
   mooreNeighborTrace [[0, 0, 0], [0, 1, 0], [0, 0, 0]] 1 1 (\<lambda>y x. False) 6 = Inr [(1, 1)]"
proof -
  have h: "\<forall>d\<in>set DIRECTIONS. \<not> foreground [[0, 0, 0], [0, 1, 0], [0, 0, 0]] (1 + fst d) (1 + snd d)"
    by (simp add: DIRECTIONS_def foreground_def isOne_def)
  with mooreNeighborTrace_returns[of "[[0, 0, 0], [0, 1, 0], [0, 0, 0]]" 1 1 "\<lambda>y x. False" 6]
  show ?thesis by (simp add: list_all_iff)
qed

text \<open>
  Claim C3, as the code has it. When the walk closes on its start pixel, the loop is left
  before the push, so the start pixel is the head of the returned sequence and occurs
  nowhere else in it: the sequence has at least two points, every point after the first
  is a foreground pixel of the mask, and the last point is a foreground pixel 8-adjacent
  to the start and different from it.
\<close>

theorem closed_walk_omits_start:
  assumes "traceWalk msk sx sy bd = Inr (Closed, c)"
  shows "mooreNeighborTrace msk sx sy visited bd = Inr c \<and>
         (\<exists>rest. c = (sx, sy) # rest \<and> rest \<noteq> [] \<and> (sx, sy) \<notin> set rest \<and>
            list_all (\<lambda>p. foreground msk (fst p) (snd p)) rest) \<and>
         hd c = (sx, sy) \<and> last c \<noteq> (sx, sy) \<and> adjacent8 (last c) (sx, sy) \<and>
         foreground msk (fst (last c)) (snd (last c))"
proof -
  from traceWalk_shape[OF assms]
  obtain rest where r: "c = (sx, sy) # rest" "(sx, sy) \<notin> set rest"
    "adjacent8 (last c) (sx, sy)" and fg: "\<forall>p\<in>set rest. foreground msk (fst p) (snd p)"
    by auto
  from r(3) have ne: "last c \<noteq> (sx, sy)" by (simp add: adjacent8_def)
  with r(1) have rne: "rest \<noteq> []" by auto
  with r(1) have "last c \<in> set rest" by simp
  with fg have lfg: "foreground msk (fst (last c)) (snd (last c))" by blast
  have "list_all (\<lambda>p. foreground msk (fst p) (snd p)) rest"
    using fg by (simp add: list_all_iff)
  with r ne rne lfg assms show ?thesis by (simp add: mooreNeighborTrace_def)
qed

theorem closed_walk_omits_start_witness:
  "traceWalk [[1, 1, 1], [1, 1, 1], [1, 1, 1]] 0 0 6
     = Inr (Closed, [(0, 0), (1, 0), (2, 0), (2, 1), (2, 2), (1, 2), (0, 2), (0, 1)]) \<and>
   mooreNeighborTrace [[1, 1, 1], [1, 1, 1], [1, 1, 1]] 0 0 (\<lambda>y x. False) 6
     = Inr [(0, 0), (1, 0), (2, 0), (2, 1), (2, 2), (1, 2), (0, 2), (0, 1)] \<and>
   adjacent8 (0, 1) (0, 0) \<and>
   foreground [[1, 1, 1], [1, 1, 1], [1, 1, 1]] 0 1"
proof -
  have e: "traceWalk [[1, 1, 1], [1, 1, 1], [1, 1, 1]] 0 0 6
     = Inr (Closed, [(0, 0), (1, 0), (2, 0), (2, 1), (2, 2), (1, 2), (0, 2), (0, 1)])"
    by (simp add: traceWalk_def traceLoop.simps MAX_LOOP_def DIRECTIONS_def isOne_def upt_rec)
  from closed_walk_omits_start[OF e, of "\<lambda>y x. False"] e show ?thesis by simp
qed

text \<open>
  Claim C3 as stated fails on the solid 2 by 2 block: its walk closes on the start pixel
  \<open>(0, 0)\<close>, and the contour that \<open>traceContours\<close> returns ends with \<open>(0, 1)\<close>.
\<close>

theorem closed_contour_counterexample:
  "traceWalk [[1, 1], [1, 1]] 0 0 6 = Inr (Closed, [(0, 0), (1, 0), (1, 1), (0, 1)]) \<and>
   traceContours [[1, 1], [1, 1]]
     = Inr [\<lparr>contour_points = [(0, 0), (1, 0), (1, 1), (0, 1)], contour_isHole = False\<rparr>] \<and>
   hd [(0, 0), (1, 0), (1, 1), (0::int, 1::int)] \<noteq> last [(0, 0), (1, 0), (1, 1), (0, 1)]"
  by (simp add: traceContours_def traceCell_def mooreNeighborTrace_def floodFillVisited_def
      floodLoop.simps floodVisit_def markVisited_def traceWalk_def traceLoop.simps
      MAX_LOOP_def DIRECTIONS_def isOne_def upt_rec numeral_2_eq_2)

text \<open>
  Claim C2 fails on the code. The two pixels of the mask below touch at a corner, so they
  are one 8-connected component, and the boundary walk from either of them reaches the
  other. The flood fill follows the 4 axis neighbours only, so it marks \<open>(0, 0)\<close> alone,
  the scan finds \<open>(1, 1)\<close> unvisited, and the component is traced a second time.
\<close>

theorem traceContours_diagonal_pair:
  "adjacent8 (0, 0) (1, 1) \<and>
   traceContours [[1, 0], [0, 1]]
     = Inr [\<lparr>contour_points = [(0, 0), (1, 1)], contour_isHole = False\<rparr>,
            \<lparr>contour_points = [(1, 1), (0, 0)], contour_isHole = False\<rparr>]"
  by (simp add: adjacent8_def traceContours_def traceCell_def mooreNeighborTrace_def
      floodFillVisited_def floodLoop.simps floodVisit_def markVisited_def traceWalk_def
      traceLoop.simps MAX_LOOP_def DIRECTIONS_def isOne_def upt_rec numeral_2_eq_2)

section \<open>Properties of path simplification\<close>

















section \<open>Properties of curve fitting\<close>

lemma sqrt25: "sqrt 25 = 5"
  using real_sqrt_abs[of 5] by simp

lemma safeNormalize_norm: "(fst (safeNormalize v))\<^sup>2 + (snd (safeNormalize v))\<^sup>2 \<le> 1"
proof (cases "sqrt (fst v * fst v + snd v * snd v) < 1 / 10 ^ 9")
  case True
  then show ?thesis by (simp add: safeNormalize_def)
next
  case False
  let ?s = "fst v * fst v + snd v * snd v"
  have nn: "0 \<le> ?s" by simp
  have "(0::real) < 1 / 10 ^ 9" by simp
  with False have pos: "0 < sqrt ?s" by linarith
  have sq: "(sqrt ?s)\<^sup>2 = ?s" using nn by simp
  have "(fst v / sqrt ?s)\<^sup>2 + (snd v / sqrt ?s)\<^sup>2 = ((fst v)\<^sup>2 + (snd v)\<^sup>2) / (sqrt ?s)\<^sup>2"
    by (simp add: power_divide add_divide_distrib)
  also have "\<dots> = ?s / ?s" by (simp add: sq power2_eq_square)
  also have "\<dots> = 1" using pos by auto
  finally show ?thesis using False by (simp add: safeNormalize_def Let_def)
qed

lemma handle_length:
  assumes "(fst t)\<^sup>2 + (snd t)\<^sup>2 \<le> 1" "0 \<le> len"
  shows "distance p (fst p + fst t * len, snd p + snd t * len) \<le> len"
proof -
  have "(fst t * len)\<^sup>2 + (snd t * len)\<^sup>2 = ((fst t)\<^sup>2 + (snd t)\<^sup>2) * len\<^sup>2"
    by (simp add: power_mult_distrib distrib_right)
  also have "\<dots> \<le> 1 * len\<^sup>2"
    by (rule mult_right_mono[OF assms(1)]) simp
  finally have "sqrt ((fst t * len)\<^sup>2 + (snd t * len)\<^sup>2) \<le> sqrt (len\<^sup>2)"
    by (intro real_sqrt_le_mono) simp
  also have "sqrt (len\<^sup>2) = len" using assms(2) by simp
  finally show ?thesis by (simp add: distance_def)
qed

lemma distance_nonneg: "0 \<le> distance p q"
  by (simp add: distance_def)

lemma fitSegment_handles:
  assumes "fitSegment cleanPoints isClosed i = Some c"
  shows "distance (curve_p0 c) (curve_p1 c) \<le> 0.4 * distance (curve_p0 c) (curve_p3 c) \<and>
         distance (curve_p3 c) (curve_p2 c) \<le> 0.4 * distance (curve_p0 c) (curve_p3 c)"
proof -
  define p0 where "p0 = cleanPoints ! i"
  define p3 where "p3 = cleanPoints ! (i + 1)"
  define prev where "prev = (if i = 0
                       then (if isClosed then cleanPoints ! (length cleanPoints - 2) else p0)
                       else cleanPoints ! (i - 1))"
  define nxt where "nxt = (if i + 1 = length cleanPoints - 1
                       then (if isClosed then cleanPoints ! 1 else p3)
                       else cleanPoints ! (i + 2))"
  define tangent1 where "tangent1 = (if isCorner (Some prev) p0 (Some p3)
                           then safeNormalize (fst p3 - fst p0, snd p3 - snd p0)
                           else safeNormalize (fst p3 - fst prev, snd p3 - snd prev))"
  define tangent2 where "tangent2 = (if isCorner (Some p0) p3 (Some nxt)
                           then safeNormalize (fst p0 - fst p3, snd p0 - snd p3)
                           else safeNormalize (fst p0 - fst nxt, snd p0 - snd nxt))"
  define dist where "dist = distance p0 p3"
  define len1 where "len1 = (if isCorner (Some prev) p0 (Some p3)
                       then min (dist * 0.1) (dist * 0.4) else min (dist * 0.33) (dist * 0.4))"
  define len2 where "len2 = (if isCorner (Some p0) p3 (Some nxt)
                       then min (dist * 0.1) (dist * 0.4) else min (dist * 0.33) (dist * 0.4))"
  have eq: "fitSegment cleanPoints isClosed i =
        (if distance p0 p3 < 0.1 then None
         else Some \<lparr>curve_p0 = p0,
                    curve_p1 = (fst p0 + fst tangent1 * len1, snd p0 + snd tangent1 * len1),
                    curve_p2 = (fst p3 + fst tangent2 * len2, snd p3 + snd tangent2 * len2),
                    curve_p3 = p3\<rparr>)"
    unfolding fitSegment_def Let_def p0_def p3_def prev_def nxt_def tangent1_def tangent2_def
      dist_def len1_def len2_def
    by (rule refl)
  from assms have c: "c = \<lparr>curve_p0 = p0,
                    curve_p1 = (fst p0 + fst tangent1 * len1, snd p0 + snd tangent1 * len1),
                    curve_p2 = (fst p3 + fst tangent2 * len2, snd p3 + snd tangent2 * len2),
                    curve_p3 = p3\<rparr>"
    unfolding eq by (simp split: if_splits)
  have d0: "0 \<le> dist" unfolding dist_def by (rule distance_nonneg)
  have b1: "0 \<le> len1" "len1 \<le> 0.4 * dist" using d0 by (auto simp: len1_def)
  have b2: "0 \<le> len2" "len2 \<le> 0.4 * dist" using d0 by (auto simp: len2_def)
  have n1: "(fst tangent1)\<^sup>2 + (snd tangent1)\<^sup>2 \<le> 1"
    by (simp add: tangent1_def safeNormalize_norm)
  have n2: "(fst tangent2)\<^sup>2 + (snd tangent2)\<^sup>2 \<le> 1"
    by (simp add: tangent2_def safeNormalize_norm)
  have "distance p0 (fst p0 + fst tangent1 * len1, snd p0 + snd tangent1 * len1) \<le> len1"
    by (rule handle_length[OF n1 b1(1)])
  moreover have "distance p3 (fst p3 + fst tangent2 * len2, snd p3 + snd tangent2 * len2) \<le> len2"
    by (rule handle_length[OF n2 b2(1)])
  ultimately show ?thesis using b1(2) b2(2) by (simp add: c dist_def)
qed

lemma fold_collect_set:
  "set (fold (\<lambda>i acc. case f i of None \<Rightarrow> acc | Some c \<Rightarrow> acc @ [c]) xs acc0)
   = set acc0 \<union> {c. \<exists>i\<in>set xs. f i = Some c}"
  by (induction xs arbitrary: acc0) (auto split: option.splits)

text \<open>
  Claim C6. Every curve that \<open>fitCurves\<close> returns has both handles at most 0.4 times as
  long as the distance between its end points, for every input point sequence.
\<close>

theorem fitCurves_handles_bounded:
  "\<forall>c\<in>set (fitCurves points).
     distance (curve_p0 c) (curve_p1 c) \<le> 0.4 * distance (curve_p0 c) (curve_p3 c) \<and>
     distance (curve_p3 c) (curve_p2 c) \<le> 0.4 * distance (curve_p0 c) (curve_p3 c)"
proof
  fix c
  assume "c \<in> set (fitCurves points)"
  define cleanPoints where "cleanPoints = filterDuplicates points 1.0"
  define isClosed where "isClosed \<longleftrightarrow>
                 (fst (cleanPoints ! 0) = fst (cleanPoints ! (length cleanPoints - 1)) \<and>
                  snd (cleanPoints ! 0) = snd (cleanPoints ! (length cleanPoints - 1)))"
  have "fitCurves points =
          (if length cleanPoints < 2 then []
           else fold (\<lambda>i curves.
                      case fitSegment cleanPoints isClosed i of
                        None \<Rightarrow> curves
                      | Some c \<Rightarrow> curves @ [c])
                [0..<length cleanPoints - 1] [])"
    unfolding fitCurves_def Let_def cleanPoints_def isClosed_def by (rule refl)
  with \<open>c \<in> set (fitCurves points)\<close>
  have "c \<in> set (fold (\<lambda>i curves.
                      case fitSegment cleanPoints isClosed i of
                        None \<Rightarrow> curves
                      | Some c \<Rightarrow> curves @ [c])
                [0..<length cleanPoints - 1] [])"
    by (simp split: if_splits)
  then obtain i where "fitSegment cleanPoints isClosed i = Some c"
    unfolding fold_collect_set[of "fitSegment cleanPoints isClosed"] by auto
  then show "distance (curve_p0 c) (curve_p1 c) \<le> 0.4 * distance (curve_p0 c) (curve_p3 c) \<and>
     distance (curve_p3 c) (curve_p2 c) \<le> 0.4 * distance (curve_p0 c) (curve_p3 c)"
    by (rule fitSegment_handles)
qed

lemma fitCurves_example:
  "fitCurves [(0, 0), (3, 4)]
     = [\<lparr>curve_p0 = (0, 0), curve_p1 = (0.99, 1.32), curve_p2 = (2.01, 2.68), curve_p3 = (3, 4)\<rparr>]"
  by (simp add: fitCurves_def filterDuplicates_def fitSegment_def isCorner_def safeNormalize_def
      distance_def sqrt25 Let_def)

theorem fitCurves_handles_bounded_witness:
  "fitCurves [(0, 0), (3, 4)]
     = [\<lparr>curve_p0 = (0, 0), curve_p1 = (0.99, 1.32), curve_p2 = (2.01, 2.68), curve_p3 = (3, 4)\<rparr>] \<and>
   distance (0, 0) (0.99, 1.32) \<le> 0.4 * distance (0, 0) (3, 4) \<and>
   distance (3, 4) (2.01, 2.68) \<le> 0.4 * distance (0, 0) (3, 4)"
proof -
  let ?c = "\<lparr>curve_p0 = (0, 0), curve_p1 = (0.99, 1.32), curve_p2 = (2.01, 2.68),
             curve_p3 = (3, 4)\<rparr>"
  have m: "?c \<in> set (fitCurves [(0, 0), (3, 4)])" by (simp add: fitCurves_example)
  from fitCurves_handles_bounded[THEN bspec, OF m] fitCurves_example
  show ?thesis by simp
qed

lemma fold_collect_map_filter:
  "fold (\<lambda>i acc. case f i of None \<Rightarrow> acc | Some c \<Rightarrow> acc @ [c]) xs acc0
   = acc0 @ List.map_filter f xs"
  by (induction xs arbitrary: acc0) (auto simp: List.map_filter_simps split: option.splits)

lemma fitCurves_segments:
  "fitCurves points =
     List.map_filter
       (fitSegment (filterDuplicates points 1) (isClosedPath (filterDuplicates points 1)))
       [0..<length (filterDuplicates points 1) - 1]"
proof -
  define cleanPoints where "cleanPoints = filterDuplicates points 1.0"
  have eq: "fitCurves points =
          (if length cleanPoints < 2 then []
           else fold (\<lambda>i curves.
                      case fitSegment cleanPoints (isClosedPath cleanPoints) i of
                        None \<Rightarrow> curves
                      | Some c \<Rightarrow> curves @ [c])
                [0..<length cleanPoints - 1] [])"
    unfolding fitCurves_def Let_def cleanPoints_def isClosedPath_def by (rule refl)
  have f: "fold (\<lambda>i curves.
                      case fitSegment cleanPoints (isClosedPath cleanPoints) i of
                        None \<Rightarrow> curves
                      | Some c \<Rightarrow> curves @ [c]) xs []
           = List.map_filter (fitSegment cleanPoints (isClosedPath cleanPoints)) xs" for xs
    using fold_collect_map_filter[of "fitSegment cleanPoints (isClosedPath cleanPoints)" xs "[]"]
    by simp
  have "fitCurves points =
          List.map_filter (fitSegment cleanPoints (isClosedPath cleanPoints))
            [0..<length cleanPoints - 1]"
  proof (cases "length cleanPoints < 2")
    case True
    then have "[0..<length cleanPoints - 1] = []" by simp
    with True show ?thesis unfolding eq by (simp add: List.map_filter_simps)
  next
    case False
    then show ?thesis unfolding eq f by simp
  qed
  then show ?thesis by (simp add: cleanPoints_def)
qed

lemma fitSegment_parts:
  assumes "fitSegment cleanPoints isClosed i = Some c"
  shows "\<not> distance (cleanPoints ! i) (cleanPoints ! (i + 1)) < 0.1 \<and>
         curve_p0 c = cleanPoints ! i \<and> curve_p3 c = cleanPoints ! (i + 1) \<and>
         curve_p1 c =
           (if isCorner (Some (segmentPrev cleanPoints isClosed i)) (cleanPoints ! i)
                 (Some (cleanPoints ! (i + 1)))
            then along (cleanPoints ! i) (cleanPoints ! i) (cleanPoints ! (i + 1))
                   (0.1 * distance (cleanPoints ! i) (cleanPoints ! (i + 1)))
            else along (cleanPoints ! i) (segmentPrev cleanPoints isClosed i)
                   (cleanPoints ! (i + 1))
                   (0.33 * distance (cleanPoints ! i) (cleanPoints ! (i + 1)))) \<and>
         curve_p2 c =
           (if isCorner (Some (cleanPoints ! i)) (cleanPoints ! (i + 1))
                 (Some (segmentNext cleanPoints isClosed i))
            then along (cleanPoints ! (i + 1)) (cleanPoints ! (i + 1)) (cleanPoints ! i)
                   (0.1 * distance (cleanPoints ! i) (cleanPoints ! (i + 1)))
            else along (cleanPoints ! (i + 1)) (segmentNext cleanPoints isClosed i)
                   (cleanPoints ! i)
                   (0.33 * distance (cleanPoints ! i) (cleanPoints ! (i + 1))))"
proof -
  define p0 where "p0 = cleanPoints ! i"
  define p3 where "p3 = cleanPoints ! (i + 1)"
  define prev where "prev = (if i = 0
                       then (if isClosed then cleanPoints ! (length cleanPoints - 2) else p0)
                       else cleanPoints ! (i - 1))"
  define nxt where "nxt = (if i + 1 = length cleanPoints - 1
                       then (if isClosed then cleanPoints ! 1 else p3)
                       else cleanPoints ! (i + 2))"
  define tangent1 where "tangent1 = (if isCorner (Some prev) p0 (Some p3)
                           then safeNormalize (fst p3 - fst p0, snd p3 - snd p0)
                           else safeNormalize (fst p3 - fst prev, snd p3 - snd prev))"
  define tangent2 where "tangent2 = (if isCorner (Some p0) p3 (Some nxt)
                           then safeNormalize (fst p0 - fst p3, snd p0 - snd p3)
                           else safeNormalize (fst p0 - fst nxt, snd p0 - snd nxt))"
  define dist where "dist = distance p0 p3"
  define len1 where "len1 = (if isCorner (Some prev) p0 (Some p3)
                       then min (dist * 0.1) (dist * 0.4) else min (dist * 0.33) (dist * 0.4))"
  define len2 where "len2 = (if isCorner (Some p0) p3 (Some nxt)
                       then min (dist * 0.1) (dist * 0.4) else min (dist * 0.33) (dist * 0.4))"
  have eq: "fitSegment cleanPoints isClosed i =
        (if distance p0 p3 < 0.1 then None
         else Some \<lparr>curve_p0 = p0,
                    curve_p1 = (fst p0 + fst tangent1 * len1, snd p0 + snd tangent1 * len1),
                    curve_p2 = (fst p3 + fst tangent2 * len2, snd p3 + snd tangent2 * len2),
                    curve_p3 = p3\<rparr>)"
    unfolding fitSegment_def Let_def p0_def p3_def prev_def nxt_def tangent1_def tangent2_def
      dist_def len1_def len2_def
    by (rule refl)
  from assms have nd: "\<not> distance p0 p3 < 0.1"
    and c: "c = \<lparr>curve_p0 = p0,
                    curve_p1 = (fst p0 + fst tangent1 * len1, snd p0 + snd tangent1 * len1),
                    curve_p2 = (fst p3 + fst tangent2 * len2, snd p3 + snd tangent2 * len2),
                    curve_p3 = p3\<rparr>"
    unfolding eq by (simp_all split: if_splits)
  have pv: "prev = segmentPrev cleanPoints isClosed i"
    by (simp add: prev_def segmentPrev_def p0_def)
  have nx: "nxt = segmentNext cleanPoints isClosed i"
    by (simp add: nxt_def segmentNext_def p3_def)
  have d0: "0 \<le> dist" unfolding dist_def by (rule distance_nonneg)
  have m1: "min (dist * 0.1) (dist * 0.4) = 0.1 * dist" using d0 by (simp add: min_def)
  have m2: "min (dist * 0.33) (dist * 0.4) = 0.33 * dist" using d0 by (simp add: min_def)
  have p1: "(fst p0 + fst tangent1 * len1, snd p0 + snd tangent1 * len1) =
        (if isCorner (Some prev) p0 (Some p3) then along p0 p0 p3 (0.1 * dist)
         else along p0 prev p3 (0.33 * dist))"
    unfolding tangent1_def len1_def m1 m2 along_def by simp
  have p2: "(fst p3 + fst tangent2 * len2, snd p3 + snd tangent2 * len2) =
        (if isCorner (Some p0) p3 (Some nxt) then along p3 p3 p0 (0.1 * dist)
         else along p3 nxt p0 (0.33 * dist))"
    unfolding tangent2_def len2_def m1 m2 along_def by simp
  show ?thesis
    using nd unfolding c p1 p2 by (simp add: pv nx p0_def p3_def dist_def)
qed

lemma safeNormalize_unit:
  assumes "\<not> distance a b < 0.1"
  shows "(fst (safeNormalize (fst b - fst a, snd b - snd a)))\<^sup>2
         + (snd (safeNormalize (fst b - fst a, snd b - snd a)))\<^sup>2 = 1"
proof -
  let ?vx = "fst b - fst a" and ?vy = "snd b - snd a"
  let ?s = "?vx * ?vx + ?vy * ?vy"
  have ds: "distance a b = sqrt ?s" by (simp add: distance_def power2_eq_square)
  have "(1::real) / 10 ^ 9 < 0.1" by simp
  with assms ds have big: "\<not> sqrt ?s < 1 / 10 ^ 9" by linarith
  have "(0::real) < 1 / 10 ^ 9" by simp
  with big have pos: "0 < sqrt ?s" by linarith
  have nn: "0 \<le> ?s" by simp
  have sq: "(sqrt ?s)\<^sup>2 = ?s" using nn by simp
  have "(?vx / sqrt ?s)\<^sup>2 + (?vy / sqrt ?s)\<^sup>2 = (?vx\<^sup>2 + ?vy\<^sup>2) / (sqrt ?s)\<^sup>2"
    by (simp add: power_divide add_divide_distrib)
  also have "\<dots> = ?s / ?s" by (simp add: sq power2_eq_square)
  also have "\<dots> = 1" using pos by auto
  finally show ?thesis using big by (simp add: safeNormalize_def Let_def)
qed

lemma along_length:
  assumes "\<not> distance a b < 0.1" "0 \<le> len"
  shows "distance p (along p a b len) = len"
proof -
  let ?u = "safeNormalize (fst b - fst a, snd b - snd a)"
  have "(fst ?u * len)\<^sup>2 + (snd ?u * len)\<^sup>2 = ((fst ?u)\<^sup>2 + (snd ?u)\<^sup>2) * len\<^sup>2"
    by (simp add: power_mult_distrib distrib_right)
  also have "\<dots> = len\<^sup>2" by (simp add: safeNormalize_unit[OF assms(1)])
  finally have "sqrt ((fst ?u * len)\<^sup>2 + (snd ?u * len)\<^sup>2) = sqrt (len\<^sup>2)" by simp
  also have "\<dots> = len" using assms(2) by simp
  finally show ?thesis by (simp add: distance_def along_def)
qed

lemma isCorner_self_prev: "\<not> isCorner (Some cur) cur (Some nx)"
  by (simp add: isCorner_def distance_def)

lemma isCorner_self_next: "\<not> isCorner (Some pr) cur (Some cur)"
  by (simp add: isCorner_def distance_def)

lemma fitSegment_open_start:
  assumes "fitSegment cleanPoints False 0 = Some c"
  shows "curve_p1 c = along (cleanPoints ! 0) (cleanPoints ! 0) (cleanPoints ! 1)
                        (0.33 * distance (cleanPoints ! 0) (cleanPoints ! 1)) \<and>
         distance (curve_p0 c) (curve_p1 c) = 0.33 * distance (curve_p0 c) (curve_p3 c)"
proof -
  have pv: "segmentPrev cleanPoints False 0 = cleanPoints ! 0" by (simp add: segmentPrev_def)
  from fitSegment_parts[OF assms] pv isCorner_self_prev[of "cleanPoints ! 0" "cleanPoints ! 1"]
  have nd: "\<not> distance (cleanPoints ! 0) (cleanPoints ! 1) < 0.1"
    and c0: "curve_p0 c = cleanPoints ! 0" and c3: "curve_p3 c = cleanPoints ! 1"
    and c1: "curve_p1 c = along (cleanPoints ! 0) (cleanPoints ! 0) (cleanPoints ! 1)
                        (0.33 * distance (cleanPoints ! 0) (cleanPoints ! 1))"
    by simp_all
  have "0 \<le> 0.33 * distance (cleanPoints ! 0) (cleanPoints ! 1)"
    using distance_nonneg[of "cleanPoints ! 0" "cleanPoints ! 1"] by simp
  from along_length[OF nd this] c0 c1 c3 show ?thesis by simp
qed

lemma fitSegment_open_end:
  assumes "i + 1 = length cleanPoints - 1" "fitSegment cleanPoints False i = Some c"
  shows "curve_p2 c = along (cleanPoints ! (i + 1)) (cleanPoints ! (i + 1)) (cleanPoints ! i)
                        (0.33 * distance (cleanPoints ! i) (cleanPoints ! (i + 1))) \<and>
         distance (curve_p3 c) (curve_p2 c) = 0.33 * distance (curve_p0 c) (curve_p3 c)"
proof -
  have nx: "segmentNext cleanPoints False i = cleanPoints ! (i + 1)"
    using assms(1) by (simp add: segmentNext_def)
  from fitSegment_parts[OF assms(2)] nx
    isCorner_self_next[of "cleanPoints ! i" "cleanPoints ! (i + 1)"]
  have nd: "\<not> distance (cleanPoints ! i) (cleanPoints ! (i + 1)) < 0.1"
    and c0: "curve_p0 c = cleanPoints ! i" and c3: "curve_p3 c = cleanPoints ! (i + 1)"
    and c2: "curve_p2 c = along (cleanPoints ! (i + 1)) (cleanPoints ! (i + 1)) (cleanPoints ! i)
                        (0.33 * distance (cleanPoints ! i) (cleanPoints ! (i + 1)))"
    by simp_all
  have nd': "\<not> distance (cleanPoints ! (i + 1)) (cleanPoints ! i) < 0.1"
    using nd by (simp add: distance_def power2_commute)
  have "0 \<le> 0.33 * distance (cleanPoints ! i) (cleanPoints ! (i + 1))"
    using distance_nonneg[of "cleanPoints ! i" "cleanPoints ! (i + 1)"] by simp
  from along_length[OF nd' this] c0 c2 c3 show ?thesis by simp
qed

text \<open>
  Claim C4, as the code has it. \<open>isCorner\<close> answers true when either neighbour is absent.
  With both neighbours present it answers false when either adjacent edge is shorter than
  0.1, and otherwise answers whether the dot product of the two unit edge vectors is below
  0.2. \<open>fitCurves\<close> runs \<open>fitSegment\<close> on every index of the filtered points, and
  \<open>fitSegment\<close> always calls \<open>isCorner\<close> with both neighbours present: the start of a
  segment is a corner, with a handle of 0.1 times the segment length along the chord,
  exactly when \<open>isCorner\<close> says so for \<open>prev\<close>, and otherwise gets a handle of 0.33 times
  the segment length; likewise its end for \<open>next\<close>. At the first segment of an open path
  \<open>prev\<close> is the start point itself, and at the last segment \<open>next\<close> is the end point
  itself, so these two end points are not corners and their handles are 0.33 times the
  segment length long.
\<close>

theorem isCorner_cases:
  "isCorner None cur nxt \<and> isCorner prv cur None \<and>
   isCorner (Some pr) cur (Some nx) =
     (if distance pr cur < 0.1 \<or> distance cur nx < 0.1 then False
      else fst (safeNormalize (fst cur - fst pr, snd cur - snd pr))
             * fst (safeNormalize (fst nx - fst cur, snd nx - snd cur))
           + snd (safeNormalize (fst cur - fst pr, snd cur - snd pr))
             * snd (safeNormalize (fst nx - fst cur, snd nx - snd cur)) < 0.2) \<and>
   \<not> isCorner (Some cur) cur (Some nx) \<and>
   \<not> isCorner (Some pr) cur (Some cur) \<and>
   fitCurves points =
     List.map_filter
       (fitSegment (filterDuplicates points 1) (isClosedPath (filterDuplicates points 1)))
       [0..<length (filterDuplicates points 1) - 1] \<and>
   (fitSegment cleanPoints isClosed i = Some c \<longrightarrow>
      curve_p1 c =
        (if isCorner (Some (segmentPrev cleanPoints isClosed i)) (cleanPoints ! i)
              (Some (cleanPoints ! (i + 1)))
         then along (cleanPoints ! i) (cleanPoints ! i) (cleanPoints ! (i + 1))
                (0.1 * distance (cleanPoints ! i) (cleanPoints ! (i + 1)))
         else along (cleanPoints ! i) (segmentPrev cleanPoints isClosed i)
                (cleanPoints ! (i + 1))
                (0.33 * distance (cleanPoints ! i) (cleanPoints ! (i + 1)))) \<and>
      curve_p2 c =
        (if isCorner (Some (cleanPoints ! i)) (cleanPoints ! (i + 1))
              (Some (segmentNext cleanPoints isClosed i))
         then along (cleanPoints ! (i + 1)) (cleanPoints ! (i + 1)) (cleanPoints ! i)
                (0.1 * distance (cleanPoints ! i) (cleanPoints ! (i + 1)))
         else along (cleanPoints ! (i + 1)) (segmentNext cleanPoints isClosed i)
                (cleanPoints ! i)
                (0.33 * distance (cleanPoints ! i) (cleanPoints ! (i + 1))))) \<and>
   segmentPrev cleanPoints False 0 = cleanPoints ! 0 \<and>
   (i + 1 = length cleanPoints - 1 \<longrightarrow>
      segmentNext cleanPoints False i = cleanPoints ! (i + 1)) \<and>
   (fitSegment cleanPoints False 0 = Some c0 \<longrightarrow>
      curve_p1 c0 = along (cleanPoints ! 0) (cleanPoints ! 0) (cleanPoints ! 1)
                      (0.33 * distance (cleanPoints ! 0) (cleanPoints ! 1)) \<and>
      distance (curve_p0 c0) (curve_p1 c0) = 0.33 * distance (curve_p0 c0) (curve_p3 c0)) \<and>
   (i + 1 = length cleanPoints - 1 \<and> fitSegment cleanPoints False i = Some c \<longrightarrow>
      curve_p2 c = along (cleanPoints ! (i + 1)) (cleanPoints ! (i + 1)) (cleanPoints ! i)
                     (0.33 * distance (cleanPoints ! i) (cleanPoints ! (i + 1))) \<and>
      distance (curve_p3 c) (curve_p2 c) = 0.33 * distance (curve_p0 c) (curve_p3 c))"
proof (intro conjI impI)
  show "isCorner None cur nxt" by (simp add: isCorner_def)
  show "isCorner prv cur None" by (simp add: isCorner_def split: option.splits)
  show "isCorner (Some pr) cur (Some nx) =
     (if distance pr cur < 0.1 \<or> distance cur nx < 0.1 then False
      else fst (safeNormalize (fst cur - fst pr, snd cur - snd pr))
             * fst (safeNormalize (fst nx - fst cur, snd nx - snd cur))
           + snd (safeNormalize (fst cur - fst pr, snd cur - snd pr))
             * snd (safeNormalize (fst nx - fst cur, snd nx - snd cur)) < 0.2)"
    by (simp add: isCorner_def Let_def)
  show "\<not> isCorner (Some cur) cur (Some nx)" by (rule isCorner_self_prev)
  show "\<not> isCorner (Some pr) cur (Some cur)" by (rule isCorner_self_next)
  show "fitCurves points =
     List.map_filter
       (fitSegment (filterDuplicates points 1) (isClosedPath (filterDuplicates points 1)))
       [0..<length (filterDuplicates points 1) - 1]"
    by (rule fitCurves_segments)
  show "segmentPrev cleanPoints False 0 = cleanPoints ! 0" by (simp add: segmentPrev_def)
next
  assume "fitSegment cleanPoints isClosed i = Some c"
  from fitSegment_parts[OF this]
  show "curve_p1 c =
        (if isCorner (Some (segmentPrev cleanPoints isClosed i)) (cleanPoints ! i)
              (Some (cleanPoints ! (i + 1)))
         then along (cleanPoints ! i) (cleanPoints ! i) (cleanPoints ! (i + 1))
                (0.1 * distance (cleanPoints ! i) (cleanPoints ! (i + 1)))
         else along (cleanPoints ! i) (segmentPrev cleanPoints isClosed i)
                (cleanPoints ! (i + 1))
                (0.33 * distance (cleanPoints ! i) (cleanPoints ! (i + 1))))"
    and "curve_p2 c =
        (if isCorner (Some (cleanPoints ! i)) (cleanPoints ! (i + 1))
              (Some (segmentNext cleanPoints isClosed i))
         then along (cleanPoints ! (i + 1)) (cleanPoints ! (i + 1)) (cleanPoints ! i)
                (0.1 * distance (cleanPoints ! i) (cleanPoints ! (i + 1)))
         else along (cleanPoints ! (i + 1)) (segmentNext cleanPoints isClosed i)
                (cleanPoints ! i)
                (0.33 * distance (cleanPoints ! i) (cleanPoints ! (i + 1))))"
    by blast+
next
  assume "i + 1 = length cleanPoints - 1"
  then show "segmentNext cleanPoints False i = cleanPoints ! (i + 1)"
    by (simp add: segmentNext_def)
next
  assume "fitSegment cleanPoints False 0 = Some c0"
  from fitSegment_open_start[OF this]
  show "curve_p1 c0 = along (cleanPoints ! 0) (cleanPoints ! 0) (cleanPoints ! 1)
                      (0.33 * distance (cleanPoints ! 0) (cleanPoints ! 1))"
    and "distance (curve_p0 c0) (curve_p1 c0) = 0.33 * distance (curve_p0 c0) (curve_p3 c0)"
    by blast+
next
  assume a: "i + 1 = length cleanPoints - 1 \<and> fitSegment cleanPoints False i = Some c"
  then have a1: "i + 1 = length cleanPoints - 1" and a2: "fitSegment cleanPoints False i = Some c"
    by blast+
  from fitSegment_open_end[OF a1 a2]
  show "curve_p2 c = along (cleanPoints ! (i + 1)) (cleanPoints ! (i + 1)) (cleanPoints ! i)
                     (0.33 * distance (cleanPoints ! i) (cleanPoints ! (i + 1)))"
    and "distance (curve_p3 c) (curve_p2 c) = 0.33 * distance (curve_p0 c) (curve_p3 c)"
    by blast+
qed

lemma fitSegment_example:
  "fitSegment [(0, 0), (3, 4)] False 0
     = Some \<lparr>curve_p0 = (0, 0), curve_p1 = (0.99, 1.32), curve_p2 = (2.01, 2.68),
              curve_p3 = (3, 4)\<rparr>"
  by (simp add: fitSegment_def isCorner_def safeNormalize_def distance_def sqrt25 Let_def)

theorem isCorner_cases_witness:
  "distance (0, 0) (0, 0) < 0.1 \<and>
   isCorner (Some (0, 0)) (0, 0) (Some (1, 0)) = False \<and>
   \<not> (distance (0, 0) (1, 0) < 0.1 \<or> distance (1, 0) (1, 1) < 0.1) \<and>
   isCorner (Some (0, 0)) (1, 0) (Some (1, 1)) = True \<and>
   isCorner None (1, 0) (Some (1, 1)) = True \<and>
   fitSegment [(0, 0), (3, 4)] False 0
     = Some \<lparr>curve_p0 = (0, 0), curve_p1 = (0.99, 1.32), curve_p2 = (2.01, 2.68),
              curve_p3 = (3, 4)\<rparr> \<and>
   (0::nat) + 1 = length [(0, 0), (3::real, 4::real)] - 1 \<and>
   distance (0, 0) (0.99, 1.32) = 0.33 * distance (0, 0) (3, 4) \<and>
   distance (3, 4) (2.01, 2.68) = 0.33 * distance (0, 0) (3, 4)"
proof -
  let ?c = "\<lparr>curve_p0 = (0, 0), curve_p1 = (0.99, 1.32), curve_p2 = (2.01, 2.68),
             curve_p3 = (3, 4)\<rparr>"
  have l: "(0::nat) + 1 = length [(0, 0), (3::real, 4::real)] - 1" by simp
  from isCorner_cases[where cleanPoints = "[(0, 0), (3, 4)]" and i = 0 and c = ?c and c0 = ?c]
    fitSegment_example l
  have d: "distance (curve_p0 ?c) (curve_p1 ?c) = 0.33 * distance (curve_p0 ?c) (curve_p3 ?c)"
    "distance (curve_p3 ?c) (curve_p2 ?c) = 0.33 * distance (curve_p0 ?c) (curve_p3 ?c)"
    by blast+
  have i1: "distance (0, 0) (0, 0) < 0.1 \<and>
   isCorner (Some (0, 0)) (0, 0) (Some (1, 0)) = False \<and>
   \<not> (distance (0, 0) (1, 0) < 0.1 \<or> distance (1, 0) (1, 1) < 0.1) \<and>
   isCorner (Some (0, 0)) (1, 0) (Some (1, 1)) = True \<and>
   isCorner None (1, 0) (Some (1, 1)) = True"
    using isCorner_cases[where cur = "(0, 0)" and pr = "(0, 0)" and nx = "(1, 0)"]
      isCorner_cases[where cur = "(1, 0)" and pr = "(0, 0)" and nx = "(1, 1)"
        and nxt = "Some (1, 1)"]
    by (simp add: distance_def safeNormalize_def)
  from d have d': "distance (0, 0) (0.99, 1.32) = 0.33 * distance (0, 0) (3, 4)"
    "distance (3, 4) (2.01, 2.68) = 0.33 * distance (0, 0) (3, 4)"
    by simp_all
  from i1 fitSegment_example l d' show ?thesis by blast
qed

text \<open>
  Claim C4 as stated fails where an adjacent edge is degenerately short: the end point is
  then classified as not a corner.
\<close>

theorem isCorner_short_edge_counterexample:
  "distance (0, 0) (0, 0) < 0.1 \<and> \<not> isCorner (Some (0, 0)) (0, 0) (Some (1, 0))"
  by (simp add: isCorner_def distance_def)

section \<open>Properties of the assembler\<close>

lemma forEach_preserves:
  assumes "forEach xs body s = Inr s'" "I s"
    and "\<And>a t t'. a \<in> set xs \<Longrightarrow> I t \<Longrightarrow> body a t = Inr t' \<Longrightarrow> I t'"
  shows "I s'"
  using assms
proof (induction xs arbitrary: s)
  case Nil
  then show ?case by simp
next
  case (Cons a xs)
  from Cons.prems(1) obtain s1 where s1: "body a s = Inr s1" "forEach xs body s1 = Inr s'"
    by (auto split: sum.splits)
  have i1: "I s1" using Cons.prems(3)[of a s s1] Cons.prems(2) s1(1) by simp
  show ?case
  proof (rule Cons.IH[OF s1(2) i1])
    fix b t t'
    assume "b \<in> set xs" "I t" "body b t = Inr t'"
    then show "I t'" using Cons.prems(3)[of b t t'] by simp
  qed
qed

lemma fold_add_sum:
  "fold (\<lambda>i (acc::real). acc + f i - g i) [0..<n] a = a + (\<Sum>i<n. f i - g i)"
  by (induction n) (simp_all add: algebra_simps)

lemma getPolygonArea_sum:
  "getPolygonArea points =
     \<bar>\<Sum>i<length points.
         fst (points ! i) * snd (points ! ((i + 1) mod length points))
         - fst (points ! ((i + 1) mod length points)) * snd (points ! i)\<bar> / 2"
  unfolding getPolygonArea_def Let_def
  using fold_add_sum[of "\<lambda>i. fst (points ! i) * snd (points ! ((i + 1) mod length points))"
      "\<lambda>i. fst (points ! ((i + 1) mod length points)) * snd (points ! i)" "length points" 0]
  by simp

lemma getPolygonArea_nonneg: "0 \<le> getPolygonArea points"
  by (simp add: getPolygonArea_def)

lemma shapeOf_area:
  assumes "shapeOf stackDepth rgbColor contour = Inr (Some s)"
  shows "shape_area s = getPolygonArea (map (\<lambda>(x, y). (real_of_int x, real_of_int y)) (contour_points contour))
         \<and> cfg_minArea CONFIG \<le> shape_area s"
  using assms unfolding shapeOf_def Let_def
  by (auto split: if_splits sum.splits)

lemma processLayer_area:
  assumes "processLayer stackDepth pixelData coverageMask lay allShapes = Inr shapes"
    and "\<forall>s\<in>set allShapes. 0 \<le> shape_area s"
  shows "\<forall>s\<in>set shapes. 0 \<le> shape_area s"
proof -
  from assms(1) obtain contours layerShapes where
    ls: "forEach contours
           (\<lambda>contour layerShapes.
              case shapeOf stackDepth (layer_color lay) contour of
                Inl e \<Rightarrow> Inl e
              | Inr None \<Rightarrow> Inr layerShapes
              | Inr (Some s) \<Rightarrow> Inr (layerShapes @ [s]))
           [] = Inr layerShapes"
    and sh: "shapes = allShapes @ layerShapes"
    unfolding processLayer_def by (auto split: sum.splits)
  have "\<forall>s\<in>set layerShapes. 0 \<le> shape_area s"
  proof (rule forEach_preserves[OF ls, where I="\<lambda>l. \<forall>s\<in>set l. 0 \<le> shape_area s"])
    show "\<forall>s\<in>set []. 0 \<le> shape_area s" by simp
  next
    fix a :: contour and t t' :: "shape list"
    assume t: "\<forall>s\<in>set t. 0 \<le> shape_area s"
      and b: "(case shapeOf stackDepth (layer_color lay) a of
                Inl e \<Rightarrow> Inl e
              | Inr None \<Rightarrow> Inr t
              | Inr (Some s) \<Rightarrow> Inr (t @ [s])) = Inr t'"
    show "\<forall>s\<in>set t'. 0 \<le> shape_area s"
    proof (cases "shapeOf stackDepth (layer_color lay) a")
      case (Inl e)
      with b show ?thesis by simp
    next
      case (Inr r)
      show ?thesis
      proof (cases r)
        case None
        with Inr b t show ?thesis by simp
      next
        case (Some s)
        from shapeOf_area[of stackDepth "layer_color lay" a s] Inr Some
        have "shape_area s = getPolygonArea (map (\<lambda>(x, y). (real_of_int x, real_of_int y)) (contour_points a))"
          by simp
        then have "0 \<le> shape_area s" by (simp add: getPolygonArea_nonneg)
        with Inr Some b t show ?thesis by auto
      qed
    qed
  qed
  with assms(2) sh show ?thesis by auto
qed

lemma assembleShapes_area:
  assumes "assembleShapes stackDepth pixelData layers = Inr shapes"
  shows "\<forall>s\<in>set shapes. 0 \<le> shape_area s"
proof -
  from assms obtain allShapes where
    a: "forEach layers (processLayer stackDepth pixelData (coverageOf pixelData)) [] = Inr allShapes"
    and s: "shapes = sort_key (\<lambda>s. - shape_area s) allShapes"
    unfolding assembleShapes_def by (auto split: sum.splits)
  have "\<forall>s\<in>set allShapes. 0 \<le> shape_area s"
  proof (rule forEach_preserves[OF a, where I="\<lambda>l. \<forall>s\<in>set l. 0 \<le> shape_area s"])
    show "\<forall>s\<in>set []. 0 \<le> shape_area s" by simp
  next
    fix lay :: layer and t t' :: "shape list"
    assume "\<forall>s\<in>set t. 0 \<le> shape_area s"
      and "processLayer stackDepth pixelData (coverageOf pixelData) lay t = Inr t'"
    then show "\<forall>s\<in>set t'. 0 \<le> shape_area s"
      using processLayer_area by blast
  qed
  with s show ?thesis by simp
qed

text \<open>
  Claim C10. \<open>getPolygonArea\<close> returns half the absolute value of the shoelace sum, which
  is never negative, for every point sequence. The area of every shape is the
  \<open>getPolygonArea\<close> of its contour, at least the configured minimum, so the minimum-area
  filter and the sort of the assembler work on values that are not negative.
\<close>

theorem polygon_area_nonnegative:
  "0 \<le> getPolygonArea points \<and>
   getPolygonArea points =
     \<bar>\<Sum>i<length points.
         fst (points ! i) * snd (points ! ((i + 1) mod length points))
         - fst (points ! ((i + 1) mod length points)) * snd (points ! i)\<bar> / 2 \<and>
   (shapeOf stackDepth rgbColor contour = Inr (Some s) \<longrightarrow>
      shape_area s = getPolygonArea (map (\<lambda>(x, y). (real_of_int x, real_of_int y))
                                       (contour_points contour)) \<and>
      0 \<le> shape_area s) \<and>
   (assembleShapes stackDepth pixelData layers = Inr shapes \<longrightarrow> (\<forall>s\<in>set shapes. 0 \<le> shape_area s))"
proof (intro conjI impI)
  show "0 \<le> getPolygonArea points" by (rule getPolygonArea_nonneg)
  show "getPolygonArea points =
     \<bar>\<Sum>i<length points.
         fst (points ! i) * snd (points ! ((i + 1) mod length points))
         - fst (points ! ((i + 1) mod length points)) * snd (points ! i)\<bar> / 2"
    by (rule getPolygonArea_sum)
next
  assume a: "shapeOf stackDepth rgbColor contour = Inr (Some s)"
  from shapeOf_area[OF a]
  show "shape_area s = getPolygonArea (map (\<lambda>(x, y). (real_of_int x, real_of_int y))
                                       (contour_points contour))" by simp
  then show "0 \<le> shape_area s" by (simp add: getPolygonArea_nonneg)
next
  assume "assembleShapes stackDepth pixelData layers = Inr shapes"
  then show "\<forall>s\<in>set shapes. 0 \<le> shape_area s" by (rule assembleShapes_area)
qed

lemma sqrt4: "sqrt 4 = 2"
  using real_sqrt_abs[of 2] by simp

lemma shapeOf_example:
  "shapeOf 10000 (1, 2, 3) \<lparr>contour_points = [(0, 0), (0, 8), (8, 0)], contour_isHole = False\<rparr>
     = Inr (Some \<lparr>shape_curves = fitCurves [(2, 2), (2, 4), (4, 2)], shape_fillColor = (1, 2, 3),
                  shape_area = 32, shape_isHole = False\<rparr>)"
proof -
  have a: "getPolygonArea [(0, 0), (0, 8), (8, 0)] = 32"
    by (simp add: getPolygonArea_def)
  have s: "smoothPoints [(0, 0), (0, 8), (8, 0)] (Suc 0) = [(2, 2), (2, 4), (4, 2)]"
    by (simp add: smoothPoints_def)
  have p: "simplifyPath 10000 [(2, 2), (2, 4), (4, 2)] 1 = Inr [(2, 2), (2, 4), (4, 2)]"
    by (simp add: simplifyPath.simps farthest_def perpendicularDistance_def sqrt4)
  show ?thesis
    by (simp add: shapeOf_def CONFIG_def a s p)
qed

theorem polygon_area_nonnegative_witness:
  "shapeOf 10000 (1, 2, 3) \<lparr>contour_points = [(0, 0), (0, 8), (8, 0)], contour_isHole = False\<rparr>
     = Inr (Some \<lparr>shape_curves = fitCurves [(2, 2), (2, 4), (4, 2)], shape_fillColor = (1, 2, 3),
                  shape_area = 32, shape_isHole = False\<rparr>) \<and>
   getPolygonArea [(0, 0), (0, 8), (8, 0)] = 32 \<and>
   getPolygonArea [(0, 0), (8, 0), (0, 8)] = 32 \<and>
   assembleShapes 10000 \<lparr>pd_width = 1, pd_height = 1, pd_pixels = [0, 0, 0, 0]\<rparr> [] = Inr [] \<and>
   (0::real) \<le> 32"
proof -
  have a: "getPolygonArea [(0, 0), (0, 8), (8, 0)] = 32"
    by (simp add: getPolygonArea_def)
  have b: "getPolygonArea [(0, 0), (8, 0), (0, 8)] = 32"
    by (simp add: getPolygonArea_def)
  have c: "assembleShapes 10000 \<lparr>pd_width = 1, pd_height = 1, pd_pixels = [0, 0, 0, 0]\<rparr> [] = Inr []"
    by (simp add: assembleShapes_def)
  from polygon_area_nonnegative[of "[(0, 0), (0, 8), (8, 0)]" 10000 "(1, 2, 3)"
      "\<lparr>contour_points = [(0, 0), (0, 8), (8, 0)], contour_isHole = False\<rparr>"
      "\<lparr>shape_curves = fitCurves [(2, 2), (2, 4), (4, 2)], shape_fillColor = (1, 2, 3),
                  shape_area = 32, shape_isHole = False\<rparr>"
      "\<lparr>pd_width = 1, pd_height = 1, pd_pixels = [0, 0, 0, 0]\<rparr>" "[]" "[]"]
    shapeOf_example a b c
  show ?thesis by simp
qed

text \<open>
  Claim C9. When no pixel of the buffer has an alpha byte above 20, \<open>quantizeImage\<close>
  returns the empty layer list, without an error and before any random choice, and the
  assembler returns the empty shape list.
\<close>

theorem transparent_image_gives_no_shapes:
  assumes "\<forall>i < pd_width pixelData * pd_height pixelData.
             i * 4 + 3 < length (pd_pixels pixelData) \<longrightarrow> pd_pixels pixelData ! (i * 4 + 3) \<le> 20"
  shows "quantizeImage rnd pixelData colorCount = Inr [] \<and>
         assembleShapes stackDepth pixelData [] = Inr [] \<and>
         mainShapes stackDepth rnd pixelData = Inr []"
proof -
  have "filter (alphaVisible (pd_pixels pixelData)) [0..<pd_width pixelData * pd_height pixelData] = []"
    using assms by (auto simp: filter_empty_conv alphaVisible_def)
  then have q: "quantizeImage rnd pixelData colorCount = Inr []" for colorCount
    by (simp add: quantizeImage_def Let_def)
  have a: "assembleShapes stackDepth pixelData [] = Inr []" by (simp add: assembleShapes_def)
  from q a show ?thesis by (simp add: mainShapes_def)
qed

theorem transparent_image_gives_no_shapes_witness:
  "[255, 0, 0, 0, 0, 255, 0, 20] ! 3 \<le> (20::nat) \<and>
   [255, 0, 0, 0, 0, 255, 0, 20] ! 7 \<le> (20::nat) \<and>
   quantizeImage (\<lambda>k. 0) \<lparr>pd_width = 2, pd_height = 1, pd_pixels = [255, 0, 0, 0, 0, 255, 0, 20]\<rparr> 16 = Inr [] \<and>
   mainShapes 10000 (\<lambda>k. 0) \<lparr>pd_width = 2, pd_height = 1, pd_pixels = [255, 0, 0, 0, 0, 255, 0, 20]\<rparr> = Inr []"
proof -
  let ?pd = "\<lparr>pd_width = 2, pd_height = 1, pd_pixels = [255, 0, 0, 0, 0, 255, 0, 20]\<rparr>"
  have h: "\<forall>i < pd_width ?pd * pd_height ?pd.
      i * 4 + 3 < length (pd_pixels ?pd) \<longrightarrow> pd_pixels ?pd ! (i * 4 + 3) \<le> 20"
    by (auto simp: less_Suc_eq numeral_2_eq_2)
  from transparent_image_gives_no_shapes[OF h, of "\<lambda>k. 0" 16 10000]
  show ?thesis by simp
qed

end
